theory Spec2Isabelle
  imports Main
begin

section \<open>AdaFaceWrapper: vocabulary extension, embedding injection, prompt composition\<close>

text \<open>
  A shallow embedding of \<^verbatim>\<open>src/adaface/adaface_wrapper.py\<close>. The wrapper object
  \<^verbatim>\<open>self\<close> is a record that every method takes and returns; a method that raises
  returns the exception together with the object as the raise left it, because the
  Python mutates \<^verbatim>\<open>self\<close>, the tokenizer and the embedding table in place and
  nothing is rolled back.

  Scope of the model.
  \<^item> A row of a tensor is a value of an arbitrary type \<open>'r\<close>: its numbers together
    with their dtype. All rows handled here have the width of the text encoder's
    embedding table (\<^verbatim>\<open>subj_embs: [16, 768]\<close>, \<^verbatim>\<open>token_embeds: [49412, 768]\<close>), so a
    two-dimensional tensor is the list of its rows. The table has the dtype the
    pipeline was loaded with (\<^verbatim>\<open>torch_dtype=torch.float16\<close>), and a store
    \<^verbatim>\<open>t[k] = r\<close> into it replaces row \<open>k\<close> by \<open>r\<close> converted to that dtype; the
    conversion is a parameter \<open>to_dtype\<close> of the functions that store.
  \<^item> Strings are lists of 8-bit characters, read as the code points 0..255.
  \<^item> Token ids, loop counters and the \<^verbatim>\<open>num_id_vecs\<close> of an encoder (a count of
    vectors) are natural numbers.
\<close>

subsection \<open>Exceptions\<close>

datatype error = ValueError | IndexError | UnboundLocalError | RuntimeError | AttributeError

subsection \<open>Strings\<close>

definition digit_char :: "nat \<Rightarrow> char" where
  "digit_char d = char_of (48 + d)"

text \<open>\<^verbatim>\<open>str(n)\<close> for a non-negative integer, as an f-string renders \<^verbatim>\<open>{i}\<close>.\<close>

fun str_nat :: "nat \<Rightarrow> string" where
  "str_nat n = (if n < 10 then [digit_char n] else str_nat (n div 10) @ [digit_char (n mod 10)])"

declare str_nat.simps [simp del]

text \<open>\<^verbatim>\<open>sep.join(xs)\<close>.\<close>

fun join :: "string \<Rightarrow> string list \<Rightarrow> string" where
  "join sep [] = []"
| "join sep [x] = x"
| "join sep (x # y # ys) = x @ sep @ join sep (y # ys)"

subsection \<open>The tokenizer and the embedding table\<close>

text \<open>
  Modelled from the spec: the tokenizer and the text encoder are objects of the
  \<^verbatim>\<open>transformers\<close> library, which is not under \<^verbatim>\<open>src/\<close>. The tokenizer is its
  vocabulary, a list in which a token's id is its position, with the id returned for an
  unknown token. \<^verbatim>\<open>add_tokens\<close> gives every token that is not yet in the vocabulary
  the next free id, in the order of its argument, and returns how many it added (the
  count that section 4.1 of the spec requires to equal the count requested).
  \<^verbatim>\<open>len(tokenizer)\<close> is the length of the vocabulary.
\<close>

record tokenizer =
  vocab :: "string list"
  unk_token_id :: nat

fun add_tokens_loop :: "string list \<Rightarrow> string list \<Rightarrow> nat \<Rightarrow> nat \<times> string list" where
  "add_tokens_loop v [] n = (n, v)"
| "add_tokens_loop v (t # ts) n =
     (if t \<in> set v then add_tokens_loop v ts n else add_tokens_loop (v @ [t]) ts (Suc n))"

definition add_tokens :: "tokenizer \<Rightarrow> string list \<Rightarrow> nat \<times> tokenizer" where
  "add_tokens tk new_tokens =
     (case add_tokens_loop (vocab tk) new_tokens 0 of (n, v) \<Rightarrow> (n, tk\<lparr>vocab := v\<rparr>))"

fun index_of :: "string list \<Rightarrow> string \<Rightarrow> nat option" where
  "index_of [] t = None"
| "index_of (x # xs) t = (if x = t then Some 0 else map_option Suc (index_of xs t))"

definition convert_tokens_to_ids :: "tokenizer \<Rightarrow> string list \<Rightarrow> nat list" where
  "convert_tokens_to_ids tk ts =
     map (\<lambda>t. case index_of (vocab tk) t of Some k \<Rightarrow> k | None \<Rightarrow> unk_token_id tk) ts"

text \<open>
  Modelled from the spec: \<^verbatim>\<open>resize_token_embeddings(n)\<close> of the text encoder, not under
  \<^verbatim>\<open>src/\<close>. The table gets \<open>n\<close> rows: the old rows stay where they are and every new
  row \<open>k\<close> holds the value \<open>init k\<close> the library initialises it with (section 4.1:
  ``new rows are uninitialized/placeholder values until the Injector runs'').
\<close>

definition resize_token_embeddings :: "'r list \<Rightarrow> nat \<Rightarrow> (nat \<Rightarrow> 'r) \<Rightarrow> 'r list" where
  "resize_token_embeddings tbl n init =
     map (\<lambda>k. if k < length tbl then tbl ! k else init k) [0..<n]"

subsection \<open>The wrapper object\<close>

record 'r wrapper =
  pipeline_name :: "string option"
  adaface_encoder_types :: "string list"
  encoders_num_id_vecs :: "nat list"
  subject_string :: string
  num_inference_steps :: nat
  negative_prompt :: string
  apply_neg_img_prompt :: bool
  pipeline_tokenizer :: tokenizer
  token_embeds :: "'r list"
  all_placeholder_tokens :: "string list"
  placeholder_tokens_strs :: "string list"
  all_placeholder_tokens_str :: string
  placeholder_token_ids :: "nat list"
  all_teacher_neg_id_prompt_embs :: "'r list option"

subsection \<open>\<^verbatim>\<open>extend_tokenizer_and_text_encoder\<close>\<close>

text \<open>The f-string \<^verbatim>\<open>f"{self.subject_string}_{i}_{j}"\<close>.\<close>

definition placeholder_token :: "string \<Rightarrow> nat \<Rightarrow> nat \<Rightarrow> string" where
  "placeholder_token subj i j = subj @ ''_'' @ str_nat i @ ''_'' @ str_nat j"

text \<open>
  The inner loop over \<^verbatim>\<open>j\<close>. It appends to \<^verbatim>\<open>placeholder_tokens\<close> and rebinds the
  local variable \<^verbatim>\<open>placeholder_tokens_str\<close>, which is \<open>None\<close> while still unbound
  and keeps its value from one encoder to the next.
\<close>

fun tokens_loop ::
  "string \<Rightarrow> nat \<Rightarrow> nat list \<Rightarrow> string list \<Rightarrow> string option \<Rightarrow> string list \<times> string option" where
  "tokens_loop subj i [] toks tstr = (toks, tstr)"
| "tokens_loop subj i (j # js) toks tstr =
     (let toks' = toks @ [placeholder_token subj i j]
      in tokens_loop subj i js toks' (Some (join '' '' toks')))"

text \<open>
  The outer loop over \<^verbatim>\<open>i in range(len(self.adaface_encoder_types))\<close>. Reading
  \<^verbatim>\<open>self.encoders_num_id_vecs[i]\<close> out of range raises IndexError; appending a still
  unbound \<^verbatim>\<open>placeholder_tokens_str\<close> raises UnboundLocalError. The two lists are
  attributes of \<^verbatim>\<open>self\<close> and are returned as the loop left them.
\<close>

fun encoders_loop ::
  "string \<Rightarrow> nat list \<Rightarrow> nat list \<Rightarrow> string list \<Rightarrow> string list \<Rightarrow> string option
     \<Rightarrow> error option \<times> string list \<times> string list" where
  "encoders_loop subj nums [] alls strs tstr = (None, alls, strs)"
| "encoders_loop subj nums (i # is) alls strs tstr =
     (if length nums \<le> i then (Some IndexError, alls, strs)
      else case tokens_loop subj i [0..<nums ! i] [] tstr of
        (toks, tstr') \<Rightarrow>
          (case tstr' of
             None \<Rightarrow> (Some UnboundLocalError, alls @ toks, strs)
           | Some s \<Rightarrow> encoders_loop subj nums is (alls @ toks) (strs @ [s]) tstr'))"

text \<open>
  The method. \<open>init\<close> is the initial value the library gives each new table row.
  \<^verbatim>\<open>np.sum\<close> is the sum of the list (the counts are far below \<open>2^63\<close>), so
  \<^verbatim>\<open>np.sum(...) < 1\<close> says that the sum is \<open>0\<close>.
\<close>

definition extend_tokenizer_and_text_encoder ::
  "(nat \<Rightarrow> 'r) \<Rightarrow> 'r wrapper \<Rightarrow> error option \<times> 'r wrapper" where
  "extend_tokenizer_and_text_encoder init self =
     (if sum_list (encoders_num_id_vecs self) < 1 then (Some ValueError, self)
      else
        case encoders_loop (subject_string self) (encoders_num_id_vecs self)
               [0..<length (adaface_encoder_types self)] [] [] None of
          (err, alls, strs) \<Rightarrow>
            let self1 = self\<lparr>all_placeholder_tokens := alls, placeholder_tokens_strs := strs\<rparr>
            in (case err of
                 Some e \<Rightarrow> (Some e, self1)
               | None \<Rightarrow>
                   let self2 = self1\<lparr>all_placeholder_tokens_str := join '' | '' strs\<rparr>
                   in (case add_tokens (pipeline_tokenizer self2) alls of
                        (num_added_tokens, tk) \<Rightarrow>
                          let self3 = self2\<lparr>pipeline_tokenizer := tk\<rparr>
                          in if num_added_tokens \<noteq> sum_list (encoders_num_id_vecs self)
                             then (Some ValueError, self3)
                             else
                               let self4 = self3\<lparr>placeholder_token_ids :=
                                                    convert_tokens_to_ids tk alls\<rparr>
                               in (None, self4\<lparr>token_embeds :=
                                     resize_token_embeddings (token_embeds self4)
                                       (length (vocab tk)) init\<rparr>))))"

subsection \<open>\<^verbatim>\<open>update_text_encoder_subj_embs\<close>\<close>

text \<open>
  The loop \<^verbatim>\<open>for i, token_id in enumerate(self.placeholder_token_ids)\<close> with the body
  \<^verbatim>\<open>token_embeds[token_id] = subj_embs[i]\<close>. The right-hand side is read first and
  raises IndexError when \<open>i\<close> is not a row of \<^verbatim>\<open>subj_embs\<close>; the store raises
  IndexError when \<^verbatim>\<open>token_id\<close> is not a row of the table. The rows written before
  the raise stay written. The store copies the row into the table's storage, which
  converts it to the table's dtype: \<open>to_dtype\<close>.
\<close>

fun update_rows ::
  "('r \<Rightarrow> 'r) \<Rightarrow> nat list \<Rightarrow> nat \<Rightarrow> 'r list \<Rightarrow> 'r list \<Rightarrow> error option \<times> 'r list" where
  "update_rows to_dtype [] i subj_embs tbl = (None, tbl)"
| "update_rows to_dtype (token_id # ids) i subj_embs tbl =
     (if length subj_embs \<le> i then (Some IndexError, tbl)
      else if length tbl \<le> token_id then (Some IndexError, tbl)
      else update_rows to_dtype ids (Suc i) subj_embs
             (tbl[token_id := to_dtype (subj_embs ! i)]))"

definition update_text_encoder_subj_embs ::
  "('r \<Rightarrow> 'r) \<Rightarrow> 'r wrapper \<Rightarrow> 'r list \<Rightarrow> error option \<times> 'r wrapper" where
  "update_text_encoder_subj_embs to_dtype self subj_embs =
     (case update_rows to_dtype (placeholder_token_ids self) 0 subj_embs (token_embeds self) of
        (err, tbl) \<Rightarrow> (err, self\<lparr>token_embeds := tbl\<rparr>))"

text \<open>Reading the table back at the placeholder token ids: \<^verbatim>\<open>token_embeds[ids]\<close>.\<close>

definition placeholder_rows :: "'r wrapper \<Rightarrow> 'r list" where
  "placeholder_rows self = map (\<lambda>k. token_embeds self ! k) (placeholder_token_ids self)"


subsection \<open>\<^verbatim>\<open>prepare_adaface_embeddings\<close>\<close>

text \<open>
  An identity encoder is a module that is not under \<^verbatim>\<open>src/\<close>; it is the function
  from the arguments of \<^verbatim>\<open>generate_adaface_embeddings\<close> (the image paths, the face
  embeddings, \<^verbatim>\<open>gen_rand_face\<close>, \<^verbatim>\<open>noise_level\<close>, together a value of type \<open>'a\<close>)
  to the pair it returns: the subject embeddings and the negative embeddings or
  \<^verbatim>\<open>None\<close>.
\<close>

type_synonym ('a, 'r) id2ada_prompt_encoder = "'a \<Rightarrow> 'r list \<times> 'r list option"

text \<open>\<^verbatim>\<open>torch.zeros_like(t)\<close>: as many rows as \<open>t\<close>, each the zero row.\<close>

definition zeros_like :: "('r::zero) list \<Rightarrow> 'r list" where
  "zeros_like t = map (\<lambda>_. 0) t"

text \<open>\<^verbatim>\<open>torch.cat(ts, dim=0)\<close>; it raises on an empty list of tensors.\<close>

definition torch_cat :: "'r list list \<Rightarrow> error + 'r list" where
  "torch_cat ts = (if ts = [] then Inl RuntimeError else Inr (concat ts))"

fun embeddings_loop ::
  "('a, 'r::zero) id2ada_prompt_encoder list \<Rightarrow> 'a \<Rightarrow> 'r list list \<Rightarrow> 'r list list
     \<Rightarrow> 'r list list \<times> 'r list list" where
  "embeddings_loop [] args all_subj all_neg = (all_subj, all_neg)"
| "embeddings_loop (enc # encs) args all_subj all_neg =
     (case enc args of
        (adaface_subj_embs, teacher_neg_id_prompt_embs) \<Rightarrow>
          embeddings_loop encs args (all_subj @ [adaface_subj_embs])
            (all_neg @ [case teacher_neg_id_prompt_embs of
                          None \<Rightarrow> zeros_like adaface_subj_embs
                        | Some neg \<Rightarrow> neg]))"

definition prepare_adaface_embeddings ::
  "('r \<Rightarrow> 'r) \<Rightarrow> ('r::zero) wrapper \<Rightarrow> ('a, 'r) id2ada_prompt_encoder list \<Rightarrow> 'a \<Rightarrow> bool
     \<Rightarrow> error option \<times> 'r wrapper \<times> ('r list \<times> 'r list) option" where
  "prepare_adaface_embeddings to_dtype self id2ada_prompt_encoders args update_text_encoder =
     (case embeddings_loop id2ada_prompt_encoders args [] [] of
        (subjs, negs) \<Rightarrow>
          (case torch_cat subjs of
             Inl e \<Rightarrow> (Some e, self, None)
           | Inr all_adaface_subj_embs \<Rightarrow>
               (case torch_cat negs of
                  Inl e \<Rightarrow> (Some e, self, None)
                | Inr all_neg \<Rightarrow>
                    (case (if update_text_encoder
                           then update_text_encoder_subj_embs to_dtype self all_adaface_subj_embs
                           else (None, self)) of
                       (Some e, self1) \<Rightarrow> (Some e, self1, None)
                     | (None, self1) \<Rightarrow>
                         (None, self1\<lparr>all_teacher_neg_id_prompt_embs := Some all_neg\<rparr>,
                          Some (all_adaface_subj_embs, all_neg))))))"

subsection \<open>\<^verbatim>\<open>load_unet_from_file\<close>\<close>

definition startswith :: "string \<Rightarrow> string \<Rightarrow> bool" where
  "startswith s p = (take (length p) s = p)"

definition endswith :: "string \<Rightarrow> string \<Rightarrow> bool" where
  "endswith s p = (length p \<le> length s \<and> drop (length s - length p) s = p)"

text \<open>
  A state dict is a Python dict: its items in insertion order, no key twice.
  \<^verbatim>\<open>d[k] = v\<close> replaces the value of a key that is there and appends a new key.
\<close>

fun dict_set :: "('k \<times> 'v) list \<Rightarrow> 'k \<Rightarrow> 'v \<Rightarrow> ('k \<times> 'v) list" where
  "dict_set [] k v = [(k, v)]"
| "dict_set ((k', v') # d) k v = (if k' = k then (k', v) # d else (k', v') # dict_set d k v)"

text \<open>The loop \<^verbatim>\<open>for key, value in unet_state_dict.items()\<close> filling \<^verbatim>\<open>unet_state_dict2\<close>.\<close>

fun prefix_keys_loop ::
  "string \<Rightarrow> (string \<times> 'v) list \<Rightarrow> (string \<times> 'v) list \<Rightarrow> (string \<times> 'v) list" where
  "prefix_keys_loop key_prefix [] d2 = d2"
| "prefix_keys_loop key_prefix ((key, val) # items) d2 =
     prefix_keys_loop key_prefix items (dict_set d2 (key_prefix @ key) val)"

text \<open>
  The file system and the two loaders (\<^verbatim>\<open>os.path.isfile\<close>,
  \<^verbatim>\<open>safetensors_load_file\<close>, \<^verbatim>\<open>torch.load\<close>) and the converter
  \<^verbatim>\<open>convert_ldm_unet_checkpoint\<close> with its fixed config are parameters. The pair
  \<^verbatim>\<open>is_ldm_unet\<close>, \<^verbatim>\<open>key_prefix\<close> is an option: \<open>None\<close> when the dict is not in the
  legacy format and no prefix is bound.
\<close>

definition load_unet_from_file ::
  "(string \<Rightarrow> bool) \<Rightarrow> (string \<Rightarrow> (string \<times> 'v) list) \<Rightarrow> (string \<Rightarrow> (string \<times> 'v) list)
     \<Rightarrow> ((string \<times> 'v) list \<Rightarrow> (string \<times> 'v) list) \<Rightarrow> string
     \<Rightarrow> error + (string \<times> 'v) list" where
  "load_unet_from_file isfile safetensors_load_file torch_load convert_ldm_unet_checkpoint unet_path =
     (if isfile unet_path then
        let unet_state_dict =
              (if endswith unet_path ''.safetensors'' then safetensors_load_file unet_path
               else torch_load unet_path)
        in case map fst unet_state_dict of
             [] \<Rightarrow> Inl IndexError
           | key0 # _ \<Rightarrow>
               (case (if startswith key0 ''model.diffusion_model'' then Some []
                      else if startswith key0 ''diffusion_model'' then Some ''model.''
                      else None) of
                  Some key_prefix \<Rightarrow>
                    Inr (convert_ldm_unet_checkpoint (prefix_keys_loop key_prefix unet_state_dict []))
                | None \<Rightarrow> Inr unet_state_dict)
      else Inl ValueError)"

subsection \<open>Regular expressions\<close>

text \<open>
  The two patterns of \<^verbatim>\<open>update_prompt\<close> use a word boundary, literal characters,
  \<^verbatim>\<open>\s\<close>, alternation, concatenation, a greedy \<^verbatim>\<open>+\<close> and a greedy \<^verbatim>\<open>?\<close>. The
  character classes are those of Python's \<^verbatim>\<open>re\<close> on \<^verbatim>\<open>str\<close> for the code points
  0..255.
\<close>

definition is_space :: "char \<Rightarrow> bool" where
  "is_space c = (let n = (of_char c :: nat) in
     (9 \<le> n \<and> n \<le> 13) \<or> (28 \<le> n \<and> n \<le> 32) \<or> n = 133 \<or> n = 160)"

definition is_word :: "char \<Rightarrow> bool" where
  "is_word c = (let n = (of_char c :: nat) in
     (48 \<le> n \<and> n \<le> 57) \<or> (65 \<le> n \<and> n \<le> 90) \<or> n = 95 \<or> (97 \<le> n \<and> n \<le> 122)
     \<or> n = 170 \<or> n = 178 \<or> n = 179 \<or> n = 181 \<or> n = 185 \<or> n = 186
     \<or> (188 \<le> n \<and> n \<le> 190) \<or> (192 \<le> n \<and> n \<le> 214) \<or> (216 \<le> n \<and> n \<le> 246)
     \<or> 248 \<le> n)"

datatype regex = Eps | Bound | Lit char | Space | Alt regex regex | Seq regex regex
  | Plus regex | Opt regex

text \<open>
  A place in the searched string: the character before it, if any, and the rest of the
  string from it.
\<close>

type_synonym place = "char option \<times> string"

definition word_before :: "place \<Rightarrow> bool" where
  "word_before ps = (case fst ps of None \<Rightarrow> False | Some c \<Rightarrow> is_word c)"

definition word_after :: "place \<Rightarrow> bool" where
  "word_after ps = (case snd ps of [] \<Rightarrow> False | c # _ \<Rightarrow> is_word c)"

text \<open>
  Backtracking matching: all the places where a match of the expression that starts at
  the given place can end, in the order in which the matcher tries them (the first
  alternative first, the longest repetition first). The guard in the \<open>Plus\<close> case
  stops a repetition whose body matched the empty string.
\<close>

fun rmatch :: "regex \<Rightarrow> place \<Rightarrow> place list" where
  "rmatch Eps ps = [ps]"
| "rmatch Bound ps = (if word_before ps \<noteq> word_after ps then [ps] else [])"
| "rmatch (Lit c) ps =
     (case snd ps of [] \<Rightarrow> [] | x # xs \<Rightarrow> if x = c then [(Some x, xs)] else [])"
| "rmatch Space ps =
     (case snd ps of [] \<Rightarrow> [] | x # xs \<Rightarrow> if is_space x then [(Some x, xs)] else [])"
| "rmatch (Alt a b) ps = rmatch a ps @ rmatch b ps"
| "rmatch (Seq a b) ps = concat (map (rmatch b) (rmatch a ps))"
| "rmatch (Opt a) ps = rmatch a ps @ [ps]"
| "rmatch (Plus a) ps =
     concat (map (\<lambda>q. (if length (snd q) < length (snd ps) then rmatch (Plus a) q else []) @ [q])
               (rmatch a ps))"

text \<open>
  The match the search reports at a place: the first in the matcher's order; when
  \<^verbatim>\<open>must_advance\<close> is set, the first that is not empty.
\<close>

definition first_match :: "regex \<Rightarrow> bool \<Rightarrow> place \<Rightarrow> place option" where
  "first_match r must_advance ps =
     find (\<lambda>q. \<not> must_advance \<or> length (snd q) < length (snd ps)) (rmatch r ps)"

text \<open>
  \<^verbatim>\<open>re.sub(pattern, "", string)\<close>, from a place on. With no match at the place its
  character is copied and the search moves on. A match is replaced by the empty string
  and the search goes on where the match ended; after an empty match it goes on at the
  same place with \<^verbatim>\<open>must_advance\<close> set.
\<close>

function re_sub_empty :: "regex \<Rightarrow> char option \<Rightarrow> string \<Rightarrow> string" where
  "re_sub_empty r p s =
     (case first_match r False (p, s) of
        None \<Rightarrow> (case s of [] \<Rightarrow> [] | c # cs \<Rightarrow> c # re_sub_empty r (Some c) cs)
      | Some (p', s') \<Rightarrow>
          if length s' < length s then re_sub_empty r p' s'
          else (case first_match r True (p, s) of
                  None \<Rightarrow> (case s of [] \<Rightarrow> [] | c # cs \<Rightarrow> c # re_sub_empty r (Some c) cs)
                | Some (p'', s'') \<Rightarrow> re_sub_empty r p'' s''))"
  by pat_completeness auto
termination
proof (relation "measure (\<lambda>(r, p, s). length s)")
  fix r :: regex and p :: "char option" and s :: string and x2 x y p'' s''
  assume "first_match r True (p, s) = Some x2" and "(p'', s'') = x2"
  then have "find (\<lambda>q. length (snd q) < length s) (rmatch r (p, s)) = Some (p'', s'')"
    by (simp add: first_match_def)
  then obtain i where "length (snd (rmatch r (p, s) ! i)) < length s"
    and "(p'', s'') = rmatch r (p, s) ! i"
    unfolding find_Some_iff by blast
  then have "length s'' < length s"
    by (metis snd_conv)
  then show "((r, p'', s''), (r, p, s)) \<in> measure (\<lambda>(r, p, s). length s)"
    by simp
qed auto

declare re_sub_empty.simps [simp del]

subsection \<open>\<^verbatim>\<open>update_prompt\<close>\<close>

fun lits :: "string \<Rightarrow> regex" where
  "lits [] = Eps"
| "lits (c # cs) = Seq (Lit c) (lits cs)"

text \<open>
  The patterns \<^verbatim>\<open>r'\b(a|an|the)\s+' + self.subject_string + r'\b,?'\<close> and
  \<^verbatim>\<open>r'\b' + self.subject_string + r'\b,?'\<close>. The subject string is spliced into the
  pattern as it is, so these are the patterns the code compiles when the subject string
  holds no character that is special in a regular expression; a string of word
  characters holds none.
\<close>

definition article_pattern :: "string \<Rightarrow> regex" where
  "article_pattern subj =
     Seq Bound (Seq (Alt (Lit CHR ''a'') (Alt (lits ''an'') (lits ''the'')))
       (Seq (Plus Space) (Seq (lits subj) (Seq Bound (Opt (Lit CHR '',''))))))"

definition bare_pattern :: "string \<Rightarrow> regex" where
  "bare_pattern subj = Seq Bound (Seq (lits subj) (Seq Bound (Opt (Lit CHR '',''))))"

text \<open>The two \<^verbatim>\<open>re.sub\<close> lines of \<^verbatim>\<open>update_prompt\<close>.\<close>

definition remove_subject :: "string \<Rightarrow> string \<Rightarrow> string" where
  "remove_subject subj prompt =
     re_sub_empty (bare_pattern subj) None (re_sub_empty (article_pattern subj) None prompt)"

text \<open>
  The loop \<^verbatim>\<open>for i, placeholder_tokens_str in enumerate(self.placeholder_tokens_strs)\<close>;
  \<^verbatim>\<open>self.adaface_encoder_types[i]\<close> raises IndexError out of range.
\<close>

fun insert_placeholders :: "string list \<Rightarrow> nat \<Rightarrow> string list \<Rightarrow> string \<Rightarrow> error + string" where
  "insert_placeholders types i [] prompt = Inr prompt"
| "insert_placeholders types i (placeholder_tokens_str # strs) prompt =
     (if length types \<le> i then Inl IndexError
      else if types ! i = ''arc2face''
        then insert_placeholders types (Suc i) strs (placeholder_tokens_str @ '' '' @ prompt)
      else if types ! i = ''consistentID''
        then insert_placeholders types (Suc i) strs (prompt @ '' '' @ placeholder_tokens_str)
      else insert_placeholders types (Suc i) strs prompt)"

definition update_prompt :: "'r wrapper \<Rightarrow> string option \<Rightarrow> error + string" where
  "update_prompt self prompt =
     (let prompt = (case prompt of None \<Rightarrow> [] | Some p \<Rightarrow> p);
          prompt = remove_subject (subject_string self) prompt
      in insert_placeholders (adaface_encoder_types self) 0 (placeholder_tokens_strs self) prompt)"

subsection \<open>\<^verbatim>\<open>encode_prompt\<close> and \<^verbatim>\<open>forward\<close>\<close>

text \<open>
  The diffusers pipeline and the tensor operations are not under \<^verbatim>\<open>src/\<close>; they are
  the fields of a record of functions on an arbitrary type \<open>'t\<close> of tensors:
  \<^item> \<open>pipe_has_encode_prompt\<close> is \<^verbatim>\<open>hasattr(self.pipeline, "encode_prompt")\<close>;
  \<^item> \<open>pipe_legacy_encode_prompt prompt negative_prompt\<close> is
    \<^verbatim>\<open>self.pipeline._encode_prompt(...)\<close> of older diffusers;
  \<^item> \<open>pipe_encode_prompt_sd\<close>, \<open>pipe_encode_prompt_sd3\<close> and \<open>pipe_encode_prompt_flux\<close>
    are \<^verbatim>\<open>self.pipeline.encode_prompt\<close> with the arguments of the three call sites
    (the prompts in the order of the call, the negative prompt last where there is one);
  \<^item> \<open>tensor_unsqueeze0 t\<close> is \<^verbatim>\<open>t.unsqueeze(0)\<close>, \<open>tensor_repeat3 t n\<close> is
    \<^verbatim>\<open>t.repeat(n, 1, 1)\<close>, \<open>tensor_repeat2 t n\<close> is \<^verbatim>\<open>t.repeat(n, 1)\<close>;
  \<^item> \<open>tensor_assign_tail t x\<close> and \<open>tensor_assign_tail_rows t rows\<close> are \<open>t\<close> after the
    slice assignment \<^verbatim>\<open>t[:, -k:] = x\<close> of a tensor or of the stored teacher rows.
  The device arguments, \<^verbatim>\<open>verbose\<close> and the constant \<^verbatim>\<open>num_images_per_prompt=1\<close>
  do not change a value and are left out.
\<close>

record ('t, 'r) backend =
  pipe_has_encode_prompt :: bool
  pipe_legacy_encode_prompt :: "string \<Rightarrow> string \<Rightarrow> 't \<times> 't"
  pipe_encode_prompt_sd :: "string \<Rightarrow> string \<Rightarrow> 't \<times> 't"
  pipe_encode_prompt_sd3 :: "string \<Rightarrow> string \<Rightarrow> string \<Rightarrow> string \<Rightarrow> 't \<times> 't \<times> 't \<times> 't"
  pipe_encode_prompt_flux :: "string \<Rightarrow> string \<Rightarrow> 't \<times> 't \<times> 't"
  tensor_unsqueeze0 :: "'t \<Rightarrow> 't"
  tensor_repeat3 :: "'t \<Rightarrow> nat \<Rightarrow> 't"
  tensor_repeat2 :: "'t \<Rightarrow> nat \<Rightarrow> 't"
  tensor_assign_tail :: "'t \<Rightarrow> 't \<Rightarrow> 't"
  tensor_assign_tail_rows :: "'t \<Rightarrow> 'r list \<Rightarrow> 't"

text \<open>\<^verbatim>\<open>prompt + "".join([", "] * 256)\<close>.\<close>

definition prompt_t5_of :: "string \<Rightarrow> string" where
  "prompt_t5_of prompt = prompt @ concat (replicate 256 '', '')"

text \<open>
  \<^verbatim>\<open>encode_prompt\<close> returns \<^verbatim>\<open>prompt_embeds_\<close>, \<^verbatim>\<open>negative_prompt_embeds_\<close>,
  \<^verbatim>\<open>pooled_prompt_embeds_\<close>, \<^verbatim>\<open>negative_pooled_prompt_embeds_\<close>; \<open>None\<close> is Python's
  \<^verbatim>\<open>None\<close>. The branch with \<^verbatim>\<open>breakpoint()\<close> cannot be reached (the pipeline name is
  one of the two just tested); past it the return statement would find its variables
  unbound. The teacher embeddings are read only when \<^verbatim>\<open>apply_neg_img_prompt\<close> is set,
  which \<^verbatim>\<open>__init__\<close> never does; \<open>None\<close> stands for the attribute being
  \<^verbatim>\<open>None\<close> or not yet assigned.
\<close>

definition encode_prompt ::
  "('t, 'r) backend \<Rightarrow> 'r wrapper \<Rightarrow> string option \<Rightarrow> string option
     \<Rightarrow> error + ('t \<times> 't option \<times> 't option \<times> 't option)" where
  "encode_prompt P self prompt negative_prompt' =
     (let negative_prompt' =
            (case negative_prompt' of None \<Rightarrow> negative_prompt self | Some n \<Rightarrow> n)
      in case update_prompt self prompt of
           Inl e \<Rightarrow> Inl e
         | Inr prompt \<Rightarrow>
             (case (if \<not> pipe_has_encode_prompt P then
                      (case pipe_legacy_encode_prompt P prompt negative_prompt' of
                         (pe, ne) \<Rightarrow>
                           Inr (tensor_unsqueeze0 P pe, Some (tensor_unsqueeze0 P ne), None, None))
                    else if pipeline_name self \<in> {Some ''text2img3'', Some ''flux''} then
                      (let prompt_t5 = prompt_t5_of prompt
                       in if pipeline_name self = Some ''text2img3'' then
                            (case pipe_encode_prompt_sd3 P prompt prompt prompt_t5 negative_prompt' of
                               (pe, ne, pp, npp) \<Rightarrow> Inr (pe, Some ne, Some pp, Some npp))
                          else if pipeline_name self = Some ''flux'' then
                            (case pipe_encode_prompt_flux P prompt prompt_t5 of
                               (pe, pp, text_ids) \<Rightarrow> Inr (pe, None, Some pp, None))
                          else Inl UnboundLocalError)
                    else
                      (case pipe_encode_prompt_sd P prompt negative_prompt' of
                         (pe, ne) \<Rightarrow> Inr (pe, Some ne, None, None))) of
                Inl e \<Rightarrow> Inl e
              | Inr (pe, ne, pp, npp) \<Rightarrow>
                  (case (if pipeline_name self = Some ''text2img'' \<and> apply_neg_img_prompt self
                         then all_teacher_neg_id_prompt_embs self else None) of
                     Some teacher \<Rightarrow>
                       Inr (pe, map_option (\<lambda>t. tensor_assign_tail_rows P t teacher) ne, pp, npp)
                   | None \<Rightarrow> Inr (pe, ne, pp, npp))))"

text \<open>
  What \<^verbatim>\<open>forward\<close> hands to the sampler \<^verbatim>\<open>self.pipeline(...)\<close>: the keyword
  arguments of the three calls, in the order of the source.
  \<^item> \<open>SD3Call\<close>: \<^verbatim>\<open>prompt_embeds\<close>, \<^verbatim>\<open>negative_prompt_embeds\<close>,
    \<^verbatim>\<open>pooled_prompt_embeds\<close>, \<^verbatim>\<open>negative_pooled_prompt_embeds\<close>,
    \<^verbatim>\<open>num_inference_steps\<close>, \<^verbatim>\<open>guidance_scale\<close>, \<^verbatim>\<open>generator\<close>;
  \<^item> \<open>FluxCall\<close>: \<^verbatim>\<open>prompt_embeds\<close>, \<^verbatim>\<open>pooled_prompt_embeds\<close>,
    \<^verbatim>\<open>num_inference_steps\<close>, \<^verbatim>\<open>guidance_scale\<close>, \<^verbatim>\<open>generator\<close>;
  \<^item> \<open>SDCall\<close>: \<^verbatim>\<open>image\<close>, \<^verbatim>\<open>prompt_embeds\<close>, \<^verbatim>\<open>negative_prompt_embeds\<close>,
    \<^verbatim>\<open>num_inference_steps\<close>, \<^verbatim>\<open>guidance_scale\<close>, \<^verbatim>\<open>strength\<close>, \<^verbatim>\<open>generator\<close>.
  The guidance scale and the strength are values of an arbitrary type \<open>'f\<close>, the noise of
  \<open>'n\<close>, the generator of \<open>'g\<close>.
\<close>

datatype ('t, 'n, 'f, 'g) sampler_call =
    SD3Call 't "'t option" 't 't nat 'f 'g
  | FluxCall 't "'t option" nat 'f 'g
  | SDCall 'n 't "'t option" nat 'f 'f 'g

text \<open>
  \<^verbatim>\<open>forward\<close>, up to the call of the sampler. Repeating a pooled embedding that is
  \<^verbatim>\<open>None\<close> raises AttributeError.
\<close>

definition forward ::
  "('t, 'r) backend \<Rightarrow> 'r wrapper \<Rightarrow> 'n \<Rightarrow> string option \<Rightarrow> string option \<Rightarrow> 't option
     \<Rightarrow> 'f \<Rightarrow> nat \<Rightarrow> 'f \<Rightarrow> 'g \<Rightarrow> error + ('t, 'n, 'f, 'g) sampler_call" where
  "forward P self noise prompt negative_prompt' teacher_neg_id_prompt_embs guidance_scale
       out_image_count ref_img_strength generator =
     (let negative_prompt' =
            (case negative_prompt' of None \<Rightarrow> negative_prompt self | Some n \<Rightarrow> n)
      in case encode_prompt P self prompt (Some negative_prompt') of
           Inl e \<Rightarrow> Inl e
         | Inr (pe, ne, pp, npp) \<Rightarrow>
             (let pe = tensor_repeat3 P pe out_image_count;
                  ne = (case ne of
                          None \<Rightarrow> None
                        | Some t \<Rightarrow>
                            Some (tensor_repeat3 P
                                    (case teacher_neg_id_prompt_embs of
                                       None \<Rightarrow> t
                                     | Some teacher \<Rightarrow> tensor_assign_tail P t teacher)
                                    out_image_count))
              in if pipeline_name self = Some ''text2img3'' then
                   (case (pp, npp) of
                      (Some pooled, Some negative_pooled) \<Rightarrow>
                        Inr (SD3Call pe ne (tensor_repeat2 P pooled out_image_count)
                               (tensor_repeat2 P negative_pooled out_image_count)
                               (num_inference_steps self) guidance_scale generator)
                    | _ \<Rightarrow> Inl AttributeError)
                 else if pipeline_name self = Some ''flux'' then
                   Inr (FluxCall pe pp 4 guidance_scale generator)
                 else
                   Inr (SDCall noise pe ne (num_inference_steps self) guidance_scale
                          ref_img_strength generator)))"

subsection \<open>The removal of the placeholder, as the specification words it\<close>

text \<open>
  Section 4.4 of the specification: the composer ``removes occurrences of
  \<^verbatim>\<open>(a|an|the) <placeholder>\<close> (with an optional trailing comma) and bare
  \<^verbatim>\<open><placeholder>\<close> (with optional trailing comma), using word-boundary matching so
  substrings inside other words are untouched''. The definitions of this subsection
  follow these words, not the source: one pass over the prompt that skips every
  occurrence and copies every other character.

  \<open>optional_comma\<close> steps over a comma that stands at the place.
  \<open>subject_here subj r\<close>: the placeholder stands at the head of \<open>r\<close> and no word
  character follows it; the result is the place after it and its optional comma.
\<close>

definition optional_comma :: "place \<Rightarrow> place" where
  "optional_comma ps =
     (case snd ps of
        [] \<Rightarrow> ps
      | c # cs \<Rightarrow> if c = CHR '','' then (Some c, cs) else ps)"

definition subject_here :: "string \<Rightarrow> string \<Rightarrow> place option" where
  "subject_here subj r =
     (if startswith r subj \<and> \<not> word_after (Some (last subj), drop (length subj) r)
      then Some (optional_comma (Some (last subj), drop (length subj) r))
      else None)"

text \<open>
  A bare occurrence at a place: no word character before it, the placeholder, no word
  character after it.
\<close>

definition bare_occurrence :: "string \<Rightarrow> place \<Rightarrow> place option" where
  "bare_occurrence subj ps = (if word_before ps then None else subject_here subj (snd ps))"

text \<open>
  An occurrence with the article \<open>a\<close> at a place: no word character before it, the
  article, white space, then the placeholder as above.
\<close>

definition article_then_subject :: "string \<Rightarrow> string \<Rightarrow> string \<Rightarrow> place option" where
  "article_then_subject subj a s =
     (if startswith s a \<and> takeWhile is_space (drop (length a) s) \<noteq> []
      then subject_here subj (dropWhile is_space (drop (length a) s))
      else None)"

definition article_occurrence :: "string \<Rightarrow> place \<Rightarrow> place option" where
  "article_occurrence subj ps =
     (if word_before ps then None
      else case article_then_subject subj ''a'' (snd ps) of
             Some q \<Rightarrow> Some q
           | None \<Rightarrow>
               (case article_then_subject subj ''an'' (snd ps) of
                  Some q \<Rightarrow> Some q
                | None \<Rightarrow> article_then_subject subj ''the'' (snd ps)))"

definition occurrence :: "string \<Rightarrow> place \<Rightarrow> place option" where
  "occurrence subj ps =
     (case article_occurrence subj ps of
        Some q \<Rightarrow> Some q
      | None \<Rightarrow> bare_occurrence subj ps)"

text \<open>
  The pass: at an occurrence, go on after it; elsewhere copy the character. (The test
  on the lengths is there for the termination of the definition: an occurrence of a
  non-empty placeholder is never empty.)
\<close>

function remove_occurrences :: "string \<Rightarrow> char option \<Rightarrow> string \<Rightarrow> string" where
  "remove_occurrences subj p [] = []"
| "remove_occurrences subj p (c # cs) =
     (case occurrence subj (p, c # cs) of
        None \<Rightarrow> c # remove_occurrences subj (Some c) cs
      | Some (p', s') \<Rightarrow>
          if length s' < length (c # cs) then remove_occurrences subj p' s'
          else c # remove_occurrences subj (Some c) cs)"
  by pat_completeness auto
termination
  by (relation "measure (\<lambda>(subj, p, s). length s)") auto

declare remove_occurrences.simps [simp del]

text \<open>All the places of a prompt, from the left.\<close>

fun places :: "char option \<Rightarrow> string \<Rightarrow> place list" where
  "places p [] = [(p, [])]"
| "places p (c # cs) = (p, c # cs) # places (Some c) cs"

subsection \<open>Auxiliary definitions and a small instance\<close>

text \<open>
  The first element of a list of matches; whether the character before a place, and
  the character at the head of a string, is a word character.
\<close>

definition first :: "'a list \<Rightarrow> 'a option" where
  "first xs = (case xs of [] \<Rightarrow> None | x # _ \<Rightarrow> Some x)"

definition word_opt :: "char option \<Rightarrow> bool" where
  "word_opt p = (case p of None \<Rightarrow> False | Some c \<Rightarrow> is_word c)"

definition starts_word :: "string \<Rightarrow> bool" where
  "starts_word s = (case s of [] \<Rightarrow> False | c # _ \<Rightarrow> is_word c)"

text \<open>The tokens the inner loop builds for encoder \<open>i\<close>.\<close>

definition encoder_tokens :: "string \<Rightarrow> nat list \<Rightarrow> nat \<Rightarrow> string list" where
  "encoder_tokens subj nums i = map (placeholder_token subj i) [0..<nums ! i]"

text \<open>
  A wrapper with an arc2face encoder of two vectors and a consistentID encoder of one,
  a tokenizer of three tokens and a table of three rows, before and after the
  vocabulary extension (a row is written as one number).
\<close>

definition example_wrapper :: "int wrapper" where
  "example_wrapper =
     \<lparr>pipeline_name = Some ''text2img'',
      adaface_encoder_types = [''arc2face'', ''consistentID''],
      encoders_num_id_vecs = [2, 1],
      subject_string = ''z'',
      num_inference_steps = 50,
      negative_prompt = ''blurry'',
      apply_neg_img_prompt = False,
      pipeline_tokenizer = \<lparr>vocab = [''a'', ''cat'', ''z''], unk_token_id = 0\<rparr>,
      token_embeds = [10, 20, 30],
      all_placeholder_tokens = [],
      placeholder_tokens_strs = [],
      all_placeholder_tokens_str = [],
      placeholder_token_ids = [],
      all_teacher_neg_id_prompt_embs = None\<rparr>"

definition example_extended :: "int wrapper" where
  "example_extended =
     example_wrapper
       \<lparr>pipeline_tokenizer := \<lparr>vocab = [''a'', ''cat'', ''z'', ''z_0_0'', ''z_0_1'', ''z_1_0''],
                                unk_token_id = 0\<rparr>,
        token_embeds := [10, 20, 30, 0, 0, 0],
        all_placeholder_tokens := [''z_0_0'', ''z_0_1'', ''z_1_0''],
        placeholder_tokens_strs := [''z_0_0 z_0_1'', ''z_1_0''],
        all_placeholder_tokens_str := ''z_0_0 z_0_1 | z_1_0'',
        placeholder_token_ids := [3, 4, 5]\<rparr>"

text \<open>
  The conversion of the instance: a row is one integer of magnitude at most 4096, and
  the table holds float16 values, which have 11 significant bits: every such integer up
  to 2048 and every even one above are kept, an odd one above 2048 goes to the
  neighbour whose half is even (round to nearest, ties to even).
\<close>

definition example_to_float16 :: "int \<Rightarrow> int" where
  "example_to_float16 x =
     (if \<bar>x\<bar> \<le> 2048 \<or> even x then x
      else if even (x div 2) then x - 1 else x + 1)"

text \<open>
  The instance above with the pipeline name \<^verbatim>\<open>flux\<close>, and a backend whose tensors are
  written as strings.
\<close>

definition example_flux_wrapper :: "int wrapper" where
  "example_flux_wrapper = example_extended\<lparr>pipeline_name := Some ''flux''\<rparr>"

definition example_flux_backend :: "(string, int) backend" where
  "example_flux_backend =
     \<lparr>pipe_has_encode_prompt = True,
      pipe_legacy_encode_prompt = (\<lambda>p n. (''emb '' @ p, ''emb '' @ n)),
      pipe_encode_prompt_sd = (\<lambda>p n. (''emb '' @ p, ''emb '' @ n)),
      pipe_encode_prompt_sd3 = (\<lambda>p1 p2 p3 n. (''emb '' @ p1, ''emb '' @ n, ''pooled '' @ p1, ''pooled '' @ n)),
      pipe_encode_prompt_flux = (\<lambda>p p2. (''emb '' @ p, ''pooled '' @ p, ''ids'')),
      tensor_unsqueeze0 = (\<lambda>t. t),
      tensor_repeat3 = (\<lambda>t n. concat (replicate n (t @ '';''))),
      tensor_repeat2 = (\<lambda>t n. concat (replicate n (t @ '';''))),
      tensor_assign_tail = (\<lambda>t x. t @ x),
      tensor_assign_tail_rows = (\<lambda>t rows. t)\<rparr>"

section \<open>Properties\<close>

subsection \<open>Injection and vocabulary extension\<close>


lemma update_rows_length: "length (snd (update_rows to_dtype ids i e t)) = length t"
  by (induction ids arbitrary: i t) auto

lemma update_rows_frame: "k \<notin> set ids \<Longrightarrow> snd (update_rows to_dtype ids i e t) ! k = t ! k"
  by (induction ids arbitrary: i t) auto

lemma update_rows_ok_iff:
  "fst (update_rows to_dtype ids i e t) = None \<longleftrightarrow>
     (ids = [] \<or> i + length ids \<le> length e) \<and> (\<forall>k\<in>set ids. k < length t)"
proof (induction ids arbitrary: i t)
  case Nil
  then show ?case by simp
next
  case (Cons a ids)
  show ?case
  proof (cases "length e \<le> i \<or> length t \<le> a")
    case True
    then show ?thesis by auto
  next
    case False
    then show ?thesis using Cons.IH [of "Suc i" "t[a := to_dtype (e ! i)]"] by auto
  qed
qed

lemma update_rows_readback:
  "distinct ids \<Longrightarrow> fst (update_rows to_dtype ids i e t) = None \<Longrightarrow>
     map (\<lambda>k. snd (update_rows to_dtype ids i e t) ! k) ids = map to_dtype (take (length ids) (drop i e))"
proof (induction ids arbitrary: i t)
  case Nil
  then show ?case by simp
next
  case (Cons a ids)
  from Cons.prems(2) have a: "i < length e" "a < length t"
    by (auto split: if_splits)
  with Cons.prems have ok: "fst (update_rows to_dtype ids (Suc i) e (t[a := to_dtype (e ! i)])) = None"
    by simp
  from Cons.prems(1) have d: "distinct ids" "a \<notin> set ids" by auto
  have "snd (update_rows to_dtype ids (Suc i) e (t[a := to_dtype (e ! i)])) ! a = to_dtype (e ! i)"
    using d(2) a by (simp add: update_rows_frame)
  moreover have "map (\<lambda>k. snd (update_rows to_dtype ids (Suc i) e (t[a := to_dtype (e ! i)])) ! k) ids
      = map to_dtype (take (length ids) (drop (Suc i) e))"
    using Cons.IH [OF d(1) ok] .
  moreover have "take (Suc (length ids)) (drop i e) = e ! i # take (length ids) (drop (Suc i) e)"
    using a(1) by (simp add: Cons_nth_drop_Suc [symmetric])
  ultimately show ?case using a by simp
qed

lemma update_rows_short:
  "length e < i + length ids \<Longrightarrow> i \<le> length e \<Longrightarrow> \<forall>k\<in>set ids. k < length t \<Longrightarrow>
     update_rows to_dtype ids i e t = (Some IndexError, snd (update_rows to_dtype (take (length e - i) ids) i e t))"
proof (induction ids arbitrary: i t)
  case Nil
  then show ?case by simp
next
  case (Cons a ids)
  show ?case
  proof (cases "length e \<le> i")
    case True
    then show ?thesis by simp
  next
    case False
    then have "length e - i = Suc (length e - Suc i)" by simp
    then show ?thesis using Cons.prems False Cons.IH [of "Suc i" "t[a := to_dtype (e ! i)]"] by simp
  qed
qed

lemma update_rows_take:
  "i + length ids \<le> n \<Longrightarrow> update_rows to_dtype ids i (take n e) t = update_rows to_dtype ids i e t"
proof (induction ids arbitrary: i t)
  case Nil
  then show ?case by simp
next
  case (Cons a ids)
  then have "i < n" by simp
  then have "(length (take n e) \<le> i) = (length e \<le> i)" "take n e ! i = e ! i"
    by auto
  moreover have "update_rows to_dtype ids (Suc i) (take n e) (t[a := to_dtype (e ! i)])
      = update_rows to_dtype ids (Suc i) e (t[a := to_dtype (e ! i)])"
    using Cons.prems by (intro Cons.IH) simp
  ultimately show ?case by simp
qed


lemma tokens_loop_eq:
  "tokens_loop subj i js toks tstr =
     (toks @ map (placeholder_token subj i) js,
      if js = [] then tstr else Some (join '' '' (toks @ map (placeholder_token subj i) js)))"
  by (induction js arbitrary: toks tstr) (simp_all add: Let_def)

lemma encoders_loop_ok:
  "encoders_loop subj nums is alls strs tstr = (None, alls', strs') \<Longrightarrow>
     alls' = alls @ concat (map (encoder_tokens subj nums) is)
     \<and> length strs' = length strs + length is \<and> (\<forall>i\<in>set is. i < length nums)"
proof (induction "is" arbitrary: alls strs tstr)
  case Nil
  then show ?case by simp
next
  case (Cons i "is")
  from Cons.prems have i: "i < length nums" by (auto split: if_splits)
  obtain toks tstr' where tl: "tokens_loop subj i [0..<nums ! i] [] tstr = (toks, tstr')"
    by (cases "tokens_loop subj i [0..<nums ! i] [] tstr")
  then have toks: "toks = encoder_tokens subj nums i"
    by (simp add: tokens_loop_eq encoder_tokens_def)
  from Cons.prems i tl obtain s where
    "encoders_loop subj nums is (alls @ toks) (strs @ [s]) tstr' = (None, alls', strs')"
    by (auto split: option.splits)
  from Cons.IH [OF this] toks i show ?case by simp
qed

lemma add_tokens_loop_le: "fst (add_tokens_loop v ts n) \<le> n + length ts"
proof (induction ts arbitrary: v n)
  case Nil
  then show ?case by simp
next
  case (Cons t ts)
  show ?case using Cons.IH [of v n] Cons.IH [of "v @ [t]" "Suc n"] by simp
qed

lemma add_tokens_loop_all:
  "fst (add_tokens_loop v ts n) = n + length ts \<Longrightarrow>
     distinct ts \<and> set ts \<inter> set v = {} \<and> snd (add_tokens_loop v ts n) = v @ ts"
proof (induction ts arbitrary: v n)
  case Nil
  then show ?case by simp
next
  case (Cons t ts)
  show ?case
  proof (cases "t \<in> set v")
    case True
    with Cons.prems add_tokens_loop_le [of v ts n] show ?thesis by simp
  next
    case False
    with Cons.prems have "fst (add_tokens_loop (v @ [t]) ts (Suc n)) = Suc n + length ts"
      by simp
    from Cons.IH [OF this] False show ?thesis by auto
  qed
qed

lemma add_tokens_loop_present:
  "set ts \<subseteq> set v \<Longrightarrow> add_tokens_loop v ts n = (n, v)"
  by (induction ts arbitrary: v n) auto

lemma index_of_append_old: "t \<in> set v \<Longrightarrow> index_of (v @ ts) t = index_of v t"
  by (induction v) auto

lemma index_of_append_new:
  "t \<notin> set v \<Longrightarrow> index_of ts t = Some k \<Longrightarrow> index_of (v @ ts) t = Some (length v + k)"
  by (induction v) auto

lemma index_of_nth: "distinct ts \<Longrightarrow> k < length ts \<Longrightarrow> index_of ts (ts ! k) = Some k"
proof (induction ts arbitrary: k)
  case Nil
  then show ?case by simp
next
  case (Cons t ts)
  then show ?case by (cases k) auto
qed

lemma convert_new_tokens:
  assumes "distinct ts" "set ts \<inter> set v = {}"
  shows "convert_tokens_to_ids (tk\<lparr>vocab := v @ ts\<rparr>) ts = [length v..<length v + length ts]"
proof (rule nth_equalityI)
  show "length (convert_tokens_to_ids (tk\<lparr>vocab := v @ ts\<rparr>) ts)
      = length [length v..<length v + length ts]"
    by (simp add: convert_tokens_to_ids_def)
next
  fix k assume "k < length (convert_tokens_to_ids (tk\<lparr>vocab := v @ ts\<rparr>) ts)"
  then have k: "k < length ts" by (simp add: convert_tokens_to_ids_def)
  then have "ts ! k \<notin> set v" using assms(2) by (meson disjoint_iff nth_mem)
  then have "index_of (v @ ts) (ts ! k) = Some (length v + k)"
    using assms(1) k by (simp add: index_of_append_new index_of_nth)
  then show "convert_tokens_to_ids (tk\<lparr>vocab := v @ ts\<rparr>) ts ! k
      = [length v..<length v + length ts] ! k"
    using k by (simp add: convert_tokens_to_ids_def)
qed


lemma length_encoder_tokens_upto:
  "n \<le> length nums \<Longrightarrow>
     length (concat (map (encoder_tokens subj nums) [0..<n])) = sum_list (take n nums)"
proof (induction n)
  case 0
  then show ?case by simp
next
  case (Suc n)
  then have "take (Suc n) nums = take n nums @ [nums ! n]"
    by (simp add: take_Suc_conv_app_nth)
  with Suc show ?case by (simp add: encoder_tokens_def)
qed

lemma sum_list_take_le: "sum_list (take n (xs::nat list)) \<le> sum_list xs"
proof -
  have "sum_list xs = sum_list (take n xs) + sum_list (drop n xs)"
    by (metis append_take_drop_id sum_list_append)
  then show ?thesis by simp
qed

lemma extend_ok:
  assumes "extend_tokenizer_and_text_encoder init self = (None, self')"
  defines "alls \<equiv> concat (map (encoder_tokens (subject_string self) (encoders_num_id_vecs self))
                        [0..<length (adaface_encoder_types self)])"
  defines "v \<equiv> vocab (pipeline_tokenizer self)"
  shows "all_placeholder_tokens self' = alls"
    and "length alls = sum_list (take (length (adaface_encoder_types self)) (encoders_num_id_vecs self))"
    and "length alls = sum_list (encoders_num_id_vecs self)"
    and "distinct alls" and "set alls \<inter> set v = {}"
    and "vocab (pipeline_tokenizer self') = v @ alls"
    and "placeholder_token_ids self' = [length v..<length v + length alls]"
    and "token_embeds self' = resize_token_embeddings (token_embeds self) (length v + length alls) init"
    and "length (placeholder_tokens_strs self') = length (adaface_encoder_types self)"
    and "placeholder_tokens_strs self' =
           snd (snd (encoders_loop (subject_string self) (encoders_num_id_vecs self)
             [0..<length (adaface_encoder_types self)] [] [] None))"
    and "length (adaface_encoder_types self) \<le> length (encoders_num_id_vecs self)"
    and "subject_string self' = subject_string self"
    and "adaface_encoder_types self' = adaface_encoder_types self"
    and "encoders_num_id_vecs self' = encoders_num_id_vecs self"
proof -
  let ?nums = "encoders_num_id_vecs self"
  let ?is = "[0..<length (adaface_encoder_types self)]"
  from assms(1) have s1: "sum_list ?nums \<noteq> 0"
    by (auto simp: extend_tokenizer_and_text_encoder_def simp del: sum_list_eq_0_iff split: if_splits)
  obtain err alls0 strs where el:
    "encoders_loop (subject_string self) ?nums ?is [] [] None = (err, alls0, strs)"
    by (cases "encoders_loop (subject_string self) ?nums ?is [] [] None")
  obtain n tk where at: "add_tokens (pipeline_tokenizer self) alls0 = (n, tk)"
    by (cases "add_tokens (pipeline_tokenizer self) alls0")
  from assms(1) s1 el have err: "err = None"
    by (auto simp: extend_tokenizer_and_text_encoder_def Let_def simp del: sum_list_eq_0_iff
        split: option.splits)
  from assms(1) s1 el at err have n: "n = sum_list ?nums"
    by (auto simp: extend_tokenizer_and_text_encoder_def Let_def simp del: sum_list_eq_0_iff
        split: if_splits)
  from assms(1) s1 el at err n have self':
    "self' = self\<lparr>all_placeholder_tokens := alls0, placeholder_tokens_strs := strs,
       all_placeholder_tokens_str := join '' | '' strs, pipeline_tokenizer := tk,
       placeholder_token_ids := convert_tokens_to_ids tk alls0,
       token_embeds := resize_token_embeddings (token_embeds self) (length (vocab tk)) init\<rparr>"
    by (simp add: extend_tokenizer_and_text_encoder_def Let_def del: sum_list_eq_0_iff)
  from encoders_loop_ok [OF el [unfolded err]] have
    a0: "alls0 = alls" and ls: "length strs = length ?is" and rng: "\<forall>i\<in>set ?is. i < length ?nums"
    by (simp_all add: alls_def)
  from at have fs: "fst (add_tokens_loop v alls0 0) = n"
    and tk: "tk = (pipeline_tokenizer self)\<lparr>vocab := snd (add_tokens_loop v alls0 0)\<rparr>"
    by (auto simp: add_tokens_def v_def split: prod.splits)
  have le: "n \<le> length alls0" using add_tokens_loop_le [of v alls0 0] fs by simp
  show "all_placeholder_tokens self' = alls" by (simp add: self' a0)
  show "length (placeholder_tokens_strs self') = length (adaface_encoder_types self)"
    by (simp add: self' ls)
  show "length (adaface_encoder_types self) \<le> length ?nums"
    using rng by (cases "length (adaface_encoder_types self)") auto
  show "placeholder_tokens_strs self' =
           snd (snd (encoders_loop (subject_string self) ?nums ?is [] [] None))"
    by (simp add: self' el)
  show "subject_string self' = subject_string self" by (simp add: self')
  show "adaface_encoder_types self' = adaface_encoder_types self" by (simp add: self')
  show "encoders_num_id_vecs self' = encoders_num_id_vecs self" by (simp add: self')
  have la: "length alls = sum_list (take (length (adaface_encoder_types self)) ?nums)"
    using \<open>length (adaface_encoder_types self) \<le> length ?nums\<close>
    by (simp add: alls_def length_encoder_tokens_upto)
  have "sum_list (take (length (adaface_encoder_types self)) ?nums) \<le> sum_list ?nums"
    by (rule sum_list_take_le)
  with la le n a0 have la': "length alls = sum_list ?nums" and n': "n = length alls0"
    by simp_all
  show "length alls = sum_list (take (length (adaface_encoder_types self)) ?nums)" by (rule la)
  show "length alls = sum_list ?nums" by (rule la')
  from add_tokens_loop_all [of v alls0 0] fs n' have
    d: "distinct alls0" "set alls0 \<inter> set v = {}" and sn: "snd (add_tokens_loop v alls0 0) = v @ alls0"
    by simp_all
  show "distinct alls" using d a0 by simp
  show "set alls \<inter> set v = {}" using d a0 by simp
  show "vocab (pipeline_tokenizer self') = v @ alls" using sn by (simp add: self' tk a0)
  show "placeholder_token_ids self' = [length v..<length v + length alls]"
    using convert_new_tokens [OF d, of "pipeline_tokenizer self"] sn by (simp add: self' tk a0)
  show "token_embeds self' = resize_token_embeddings (token_embeds self) (length v + length alls) init"
    using sn by (simp add: self' tk a0)
qed


lemma example_extend:
  "extend_tokenizer_and_text_encoder (\<lambda>k. 0) example_wrapper = (None, example_extended)"
  by code_simp

lemma example_inject:
  "update_text_encoder_subj_embs example_to_float16 example_extended [7, 8, 9]
     = (None, example_extended\<lparr>token_embeds := [10, 20, 30, 7, 8, 9]\<rparr>)"
  by code_simp

text \<open>
  Claim C9. An injection that completes writes only the rows of the embedding table
  whose indices are placeholder token ids: the table keeps its length, every other row
  is unchanged, and no other attribute of the wrapper changes.
\<close>

theorem update_text_encoder_subj_embs_frame:
  assumes "update_text_encoder_subj_embs to_dtype self subj_embs = (None, self')"
  shows "length (token_embeds self') = length (token_embeds self)
     \<and> (\<forall>k. k \<notin> set (placeholder_token_ids self) \<longrightarrow> token_embeds self' ! k = token_embeds self ! k)
     \<and> self' = self\<lparr>token_embeds := token_embeds self'\<rparr>"
proof -
  let ?res = "update_rows to_dtype (placeholder_token_ids self) 0 subj_embs (token_embeds self)"
  from assms have self': "self' = self\<lparr>token_embeds := snd ?res\<rparr>"
    by (auto simp: update_text_encoder_subj_embs_def split: prod.splits)
  then have "token_embeds self' = snd ?res" by simp
  then show ?thesis
    using self' by (simp add: update_rows_length update_rows_frame)
qed

theorem update_text_encoder_subj_embs_frame_witness:
  "update_text_encoder_subj_embs example_to_float16 example_extended [7, 8, 9]
     = (None, example_extended\<lparr>token_embeds := [10, 20, 30, 7, 8, 9]\<rparr>)
   \<and> set (placeholder_token_ids example_extended) = {3, 4, 5}
   \<and> [10, 20, 30, 7, 8, 9] ! 0 = token_embeds example_extended ! 0
   \<and> [10, 20, 30, 7, 8, 9] ! 1 = token_embeds example_extended ! 1
   \<and> [10, 20, 30, 7, 8, 9 :: int] ! 2 = token_embeds example_extended ! 2"
proof -
  have ids: "set (placeholder_token_ids example_extended) = {3, 4, 5}"
    by (simp add: example_extended_def)
  have "\<forall>k. k \<notin> set (placeholder_token_ids example_extended) \<longrightarrow>
      [10, 20, 30, 7, 8, 9] ! k = token_embeds example_extended ! k"
    using update_text_encoder_subj_embs_frame [OF example_inject] by simp
  then have r: "k \<notin> {3, 4, 5} \<Longrightarrow>
      [10, 20, 30, 7, 8, 9] ! k = token_embeds example_extended ! k" for k
    unfolding ids by blast
  have "[10, 20, 30, 7, 8, 9] ! 0 = token_embeds example_extended ! 0"
    and "[10, 20, 30, 7, 8, 9] ! 1 = token_embeds example_extended ! 1"
    and "[10, 20, 30, 7, 8, 9] ! 2 = token_embeds example_extended ! 2"
    by (rule r, simp)+
  with example_inject ids show ?thesis by blast
qed

lemma update_ok_iff:
  "fst (update_text_encoder_subj_embs to_dtype self subj_embs) = None \<longleftrightarrow>
     (placeholder_token_ids self = [] \<or> length (placeholder_token_ids self) \<le> length subj_embs)
     \<and> (\<forall>k\<in>set (placeholder_token_ids self). k < length (token_embeds self))"
proof -
  have "fst (update_text_encoder_subj_embs to_dtype self subj_embs)
      = fst (update_rows to_dtype (placeholder_token_ids self) 0 subj_embs (token_embeds self))"
    by (simp add: update_text_encoder_subj_embs_def case_prod_beta)
  then show ?thesis
    by (simp add: update_rows_ok_iff)
qed

lemma update_readback:
  assumes "distinct (placeholder_token_ids self)"
    and "update_text_encoder_subj_embs to_dtype self subj_embs = (None, self')"
  shows "placeholder_rows self' = map to_dtype (take (length (placeholder_token_ids self)) subj_embs)"
    and "placeholder_token_ids self' = placeholder_token_ids self"
    and "length (token_embeds self') = length (token_embeds self)"
proof -
  let ?res = "update_rows to_dtype (placeholder_token_ids self) 0 subj_embs (token_embeds self)"
  from assms(2) have ok: "fst ?res = None" and self': "self' = self\<lparr>token_embeds := snd ?res\<rparr>"
    by (auto simp: update_text_encoder_subj_embs_def split: prod.splits)
  show "placeholder_rows self' = map to_dtype (take (length (placeholder_token_ids self)) subj_embs)"
    using update_rows_readback [OF assms(1) ok] by (simp add: placeholder_rows_def self')
  show "placeholder_token_ids self' = placeholder_token_ids self" by (simp add: self')
  show "length (token_embeds self') = length (token_embeds self)"
    by (simp add: self' update_rows_length)
qed

text \<open>
  Claim C5, as amended. After the vocabulary extension, an injection of a tensor with
  as many rows as there are placeholder token ids succeeds, and the table rows read
  back at the placeholder token ids are the rows of the injected tensor converted to
  the dtype of the table, row for row, whatever the table held and however long it was:
  they are exactly the injected tensor when the conversion leaves its rows as they
  are. A second injection of a fresh tensor succeeds as well and overwrites the same
  rows with the new values, converted likewise.
\<close>

theorem update_text_encoder_subj_embs_readback:
  assumes ext: "extend_tokenizer_and_text_encoder init self0 = (None, self)"
    and len1: "length subj_embs = length (placeholder_token_ids self)"
    and len2: "length fresh_embs = length (placeholder_token_ids self)"
  shows "\<exists>self1 self2.
      update_text_encoder_subj_embs to_dtype self subj_embs = (None, self1)
      \<and> placeholder_rows self1 = map to_dtype subj_embs
      \<and> ((\<forall>r\<in>set subj_embs. to_dtype r = r) \<longrightarrow> placeholder_rows self1 = subj_embs)
      \<and> update_text_encoder_subj_embs to_dtype self1 fresh_embs = (None, self2)
      \<and> placeholder_rows self2 = map to_dtype fresh_embs
      \<and> ((\<forall>r\<in>set fresh_embs. to_dtype r = r) \<longrightarrow> placeholder_rows self2 = fresh_embs)
      \<and> placeholder_token_ids self2 = placeholder_token_ids self"
proof -
  let ?ids = "placeholder_token_ids self"
  let ?to_dtype = to_dtype
  from extend_ok(7,8) [OF ext] have d: "distinct ?ids"
    and rng: "\<forall>k\<in>set ?ids. k < length (token_embeds self)"
    by (simp_all add: resize_token_embeddings_def)
  obtain e1 self1 where u1: "update_text_encoder_subj_embs ?to_dtype self subj_embs = (e1, self1)"
    by (cases "update_text_encoder_subj_embs ?to_dtype self subj_embs")
  have "fst (update_text_encoder_subj_embs ?to_dtype self subj_embs) = None"
    using rng len1 by (simp add: update_ok_iff)
  with u1 have u1: "update_text_encoder_subj_embs ?to_dtype self subj_embs = (None, self1)" by simp
  from update_readback [OF d u1] len1 have r1: "placeholder_rows self1 = map ?to_dtype subj_embs"
    and i1: "placeholder_token_ids self1 = ?ids"
    and l1: "length (token_embeds self1) = length (token_embeds self)"
    by simp_all
  obtain e2 self2 where u2: "update_text_encoder_subj_embs ?to_dtype self1 fresh_embs = (e2, self2)"
    by (cases "update_text_encoder_subj_embs ?to_dtype self1 fresh_embs")
  have "fst (update_text_encoder_subj_embs ?to_dtype self1 fresh_embs) = None"
    using rng len2 i1 l1 by (simp add: update_ok_iff)
  with u2 have u2: "update_text_encoder_subj_embs ?to_dtype self1 fresh_embs = (None, self2)" by simp
  from update_readback [OF _ u2] d i1 len2 have r2: "placeholder_rows self2 = map ?to_dtype fresh_embs"
    and i2: "placeholder_token_ids self2 = ?ids"
    by simp_all
  have x1: "(\<forall>r\<in>set subj_embs. ?to_dtype r = r) \<longrightarrow> placeholder_rows self1 = subj_embs"
    unfolding r1 by (simp add: map_idI)
  have x2: "(\<forall>r\<in>set fresh_embs. ?to_dtype r = r) \<longrightarrow> placeholder_rows self2 = fresh_embs"
    unfolding r2 by (simp add: map_idI)
  from u1 r1 x1 u2 r2 x2 i2 show ?thesis by blast
qed

theorem update_text_encoder_subj_embs_readback_witness:
  "extend_tokenizer_and_text_encoder (\<lambda>k. 0) example_wrapper = (None, example_extended)
   \<and> length [7, 8, 9 :: int] = length (placeholder_token_ids example_extended)
   \<and> length [2049, 5, 6 :: int] = length (placeholder_token_ids example_extended)
   \<and> map example_to_float16 [7, 8, 9] = [7, 8, 9]
   \<and> map example_to_float16 [2049, 5, 6] = [2048, 5, 6]
   \<and> (\<exists>self1 self2.
        update_text_encoder_subj_embs example_to_float16 example_extended [7, 8, 9] = (None, self1)
        \<and> placeholder_rows self1 = [7, 8, 9]
        \<and> update_text_encoder_subj_embs example_to_float16 self1 [2049, 5, 6] = (None, self2)
        \<and> placeholder_rows self2 = [2048, 5, 6]
        \<and> placeholder_token_ids self2 = placeholder_token_ids example_extended)"
proof -
  have l1: "length [7, 8, 9 :: int] = length (placeholder_token_ids example_extended)"
    and l2: "length [2049, 5, 6 :: int] = length (placeholder_token_ids example_extended)"
    by (simp_all add: example_extended_def)
  have m1: "map example_to_float16 [7, 8, 9] = [7, 8, 9]"
    and m2: "map example_to_float16 [2049, 5, 6] = [2048, 5, 6]"
    by (simp_all add: example_to_float16_def)
  from update_text_encoder_subj_embs_readback [OF example_extend l1 l2, of example_to_float16]
  have "\<exists>self1 self2.
        update_text_encoder_subj_embs example_to_float16 example_extended [7, 8, 9] = (None, self1)
        \<and> placeholder_rows self1 = [7, 8, 9]
        \<and> update_text_encoder_subj_embs example_to_float16 self1 [2049, 5, 6] = (None, self2)
        \<and> placeholder_rows self2 = [2048, 5, 6]
        \<and> placeholder_token_ids self2 = placeholder_token_ids example_extended"
    unfolding m1 m2 by blast
  with example_extend l1 l2 m1 m2 show ?thesis by blast
qed

text \<open>
  Claim C5 as stated fails: a tensor with the right number of rows whose first row
  holds 2049 is injected without error, and the table, which holds float16 values, reads
  back 2048 in its place.
\<close>

theorem update_text_encoder_subj_embs_readback_counterexample:
  "length [2049, 8, 9 :: int] = length (placeholder_token_ids example_extended)
   \<and> update_text_encoder_subj_embs example_to_float16 example_extended [2049, 8, 9]
       = (None, example_extended\<lparr>token_embeds := [10, 20, 30, 2048, 8, 9]\<rparr>)
   \<and> placeholder_rows (example_extended\<lparr>token_embeds := [10, 20, 30, 2048, 8, 9]\<rparr>) = [2048, 8, 9]
   \<and> [2048, 8, 9] \<noteq> [2049, 8, 9 :: int]"
  by code_simp

text \<open>
  Claim C1, as amended. The placeholder token ids are rows of the table. When the tensor
  has fewer rows than there are ids, the call raises IndexError after it has written
  every row for which the tensor has a row: the table it leaves is the one a complete
  injection into the first ids leaves. When the tensor has more rows than there are ids,
  the call does not fail and ignores the rows beyond the ids.
\<close>

theorem update_text_encoder_subj_embs_row_mismatch:
  assumes "\<forall>k\<in>set (placeholder_token_ids self). k < length (token_embeds self)"
  shows "(length subj_embs < length (placeholder_token_ids self) \<longrightarrow>
            (\<exists>tbl. update_rows to_dtype (take (length subj_embs) (placeholder_token_ids self)) 0 subj_embs
                     (token_embeds self) = (None, tbl)
                 \<and> update_text_encoder_subj_embs to_dtype self subj_embs
                     = (Some IndexError, self\<lparr>token_embeds := tbl\<rparr>)))
       \<and> (length (placeholder_token_ids self) < length subj_embs \<longrightarrow>
            fst (update_text_encoder_subj_embs to_dtype self subj_embs) = None
            \<and> update_text_encoder_subj_embs to_dtype self subj_embs
                = update_text_encoder_subj_embs to_dtype self
                    (take (length (placeholder_token_ids self)) subj_embs))"
proof (intro conjI impI)
  let ?ids = "placeholder_token_ids self"
  assume short: "length subj_embs < length ?ids"
  let ?pre = "update_rows to_dtype (take (length subj_embs) ?ids) 0 subj_embs (token_embeds self)"
  have "\<forall>k\<in>set (take (length subj_embs) ?ids). k < length (token_embeds self)"
    using assms by (meson in_set_takeD)
  then have "fst ?pre = None"
    using short by (simp add: update_rows_ok_iff)
  then have pre: "?pre = (None, snd ?pre)"
    by (metis prod.collapse)
  have "update_rows to_dtype ?ids 0 subj_embs (token_embeds self) = (Some IndexError, snd ?pre)"
    using update_rows_short [of subj_embs 0 ?ids "token_embeds self"] short assms by simp
  then have "update_text_encoder_subj_embs to_dtype self subj_embs
      = (Some IndexError, self\<lparr>token_embeds := snd ?pre\<rparr>)"
    by (simp add: update_text_encoder_subj_embs_def)
  with pre show "\<exists>tbl. ?pre = (None, tbl)
      \<and> update_text_encoder_subj_embs to_dtype self subj_embs = (Some IndexError, self\<lparr>token_embeds := tbl\<rparr>)"
    by blast
next
  assume "length (placeholder_token_ids self) < length subj_embs"
  then show "fst (update_text_encoder_subj_embs to_dtype self subj_embs) = None"
    using assms by (simp add: update_ok_iff)
next
  show "update_text_encoder_subj_embs to_dtype self subj_embs
      = update_text_encoder_subj_embs to_dtype self (take (length (placeholder_token_ids self)) subj_embs)"
    using update_rows_take [where i = 0 and ids = "placeholder_token_ids self"
        and n = "length (placeholder_token_ids self)" and e = subj_embs
        and t = "token_embeds self" and to_dtype = to_dtype]
    by (simp add: update_text_encoder_subj_embs_def)
qed

theorem update_text_encoder_subj_embs_row_mismatch_witness:
  "set (placeholder_token_ids example_extended) = {3, 4, 5}
   \<and> length (token_embeds example_extended) = 6
   \<and> length [7, 8 :: int] < length (placeholder_token_ids example_extended)
   \<and> update_text_encoder_subj_embs example_to_float16 example_extended [7, 8]
       = (Some IndexError, example_extended\<lparr>token_embeds := [10, 20, 30, 7, 8, 0]\<rparr>)
   \<and> length (placeholder_token_ids example_extended) < length [7, 8, 9, 6 :: int]
   \<and> update_text_encoder_subj_embs example_to_float16 example_extended [7, 8, 9, 6]
       = (None, example_extended\<lparr>token_embeds := [10, 20, 30, 7, 8, 9]\<rparr>)"
proof -
  have rng: "\<forall>k\<in>set (placeholder_token_ids example_extended).
      k < length (token_embeds example_extended)"
    by (simp add: example_extended_def)
  have pre: "update_rows example_to_float16 (take (length [7, 8 :: int]) (placeholder_token_ids example_extended)) 0
      [7, 8] (token_embeds example_extended) = (None, [10, 20, 30, 7, 8, 0])"
    by code_simp
  have l1: "length [7, 8 :: int] < length (placeholder_token_ids example_extended)"
    and l2: "length (placeholder_token_ids example_extended) < length [7, 8, 9, 6 :: int]"
    by (simp_all add: example_extended_def)
  have tk: "take (length (placeholder_token_ids example_extended)) [7, 8, 9, 6 :: int] = [7, 8, 9]"
    by (simp add: example_extended_def)
  from update_text_encoder_subj_embs_row_mismatch [OF rng, of "[7, 8]" example_to_float16] l1 pre
  have a: "update_text_encoder_subj_embs example_to_float16 example_extended [7, 8]
       = (Some IndexError, example_extended\<lparr>token_embeds := [10, 20, 30, 7, 8, 0]\<rparr>)"
    by auto
  from update_text_encoder_subj_embs_row_mismatch [OF rng, of "[7, 8, 9, 6]" example_to_float16] l2 tk example_inject
  have b: "update_text_encoder_subj_embs example_to_float16 example_extended [7, 8, 9, 6]
       = (None, example_extended\<lparr>token_embeds := [10, 20, 30, 7, 8, 9]\<rparr>)"
    by auto
  have "set (placeholder_token_ids example_extended) = {3, 4, 5}"
    and "length (token_embeds example_extended) = 6"
    by (simp_all add: example_extended_def)
  with l1 a l2 b show ?thesis by blast
qed

text \<open>
  Claim C1 as stated fails: with three placeholder ids and two rows the call raises
  IndexError but has changed rows 3 and 4 of the table; with four rows it returns
  normally.
\<close>

theorem update_text_encoder_subj_embs_mismatch_counterexample:
  "length (placeholder_token_ids example_extended) = 3
   \<and> update_text_encoder_subj_embs example_to_float16 example_extended [7, 8]
       = (Some IndexError, example_extended\<lparr>token_embeds := [10, 20, 30, 7, 8, 0]\<rparr>)
   \<and> token_embeds example_extended = [10, 20, 30, 0, 0, 0]
   \<and> update_text_encoder_subj_embs example_to_float16 example_extended [7, 8, 9, 6]
       = (None, example_extended\<lparr>token_embeds := [10, 20, 30, 7, 8, 9]\<rparr>)"
  by code_simp

lemma extend_loop_ok:
  assumes "extend_tokenizer_and_text_encoder init self = (None, self')"
  shows "\<exists>strs. encoders_loop (subject_string self) (encoders_num_id_vecs self)
           [0..<length (adaface_encoder_types self)] [] [] None
         = (None, all_placeholder_tokens self', strs)"
proof -
  let ?el = "encoders_loop (subject_string self) (encoders_num_id_vecs self)
           [0..<length (adaface_encoder_types self)] [] [] None"
  obtain err alls strs where el: "?el = (err, alls, strs)"
    by (cases ?el)
  from assms have s1: "sum_list (encoders_num_id_vecs self) \<noteq> 0"
    by (auto simp: extend_tokenizer_and_text_encoder_def simp del: sum_list_eq_0_iff split: if_splits)
  from assms s1 el have err: "err = None"
    by (auto simp: extend_tokenizer_and_text_encoder_def Let_def simp del: sum_list_eq_0_iff
        split: option.splits)
  from encoders_loop_ok [OF el [unfolded err]] extend_ok(1) [OF assms]
  have "alls = all_placeholder_tokens self'" by simp
  with el err show ?thesis by simp
qed

lemma extend_count_mismatch:
  assumes "1 \<le> sum_list (encoders_num_id_vecs self)"
    and "encoders_loop (subject_string self) (encoders_num_id_vecs self)
           [0..<length (adaface_encoder_types self)] [] [] None = (None, alls, strs)"
    and "fst (add_tokens (pipeline_tokenizer self) alls) \<noteq> sum_list (encoders_num_id_vecs self)"
  shows "fst (extend_tokenizer_and_text_encoder init self) = Some ValueError"
proof -
  from assms(1) have s1: "sum_list (encoders_num_id_vecs self) \<noteq> 0" by arith
  obtain n tk where at: "add_tokens (pipeline_tokenizer self) alls = (n, tk)"
    by (cases "add_tokens (pipeline_tokenizer self) alls")
  with assms(3) have "n \<noteq> sum_list (encoders_num_id_vecs self)" by simp
  with s1 assms(2) at show ?thesis
    by (simp add: extend_tokenizer_and_text_encoder_def Let_def del: sum_list_eq_0_iff)
qed

text \<open>
  Claim C3. The vocabulary extension raises ValueError (the spec's ConfigurationError)
  when the id-vector counts sum to zero, and when the tokenizer reports a number of
  added tokens different from that sum. An extension that succeeded added exactly as many
  tokens as requested, and a second extension of the same wrapper then raises
  ValueError at the count check.
\<close>

theorem extend_tokenizer_and_text_encoder_fails:
  "(sum_list (encoders_num_id_vecs self) < 1 \<longrightarrow>
      extend_tokenizer_and_text_encoder init self = (Some ValueError, self))
   \<and> (\<forall>alls strs.
        1 \<le> sum_list (encoders_num_id_vecs self)
        \<and> encoders_loop (subject_string self) (encoders_num_id_vecs self)
             [0..<length (adaface_encoder_types self)] [] [] None = (None, alls, strs)
        \<and> fst (add_tokens (pipeline_tokenizer self) alls) \<noteq> sum_list (encoders_num_id_vecs self)
        \<longrightarrow> fst (extend_tokenizer_and_text_encoder init self) = Some ValueError)
   \<and> (\<forall>self'. extend_tokenizer_and_text_encoder init self = (None, self') \<longrightarrow>
        fst (add_tokens (pipeline_tokenizer self) (all_placeholder_tokens self'))
          = sum_list (encoders_num_id_vecs self)
        \<and> length (all_placeholder_tokens self') = sum_list (encoders_num_id_vecs self)
        \<and> fst (add_tokens (pipeline_tokenizer self') (all_placeholder_tokens self')) = 0
        \<and> fst (extend_tokenizer_and_text_encoder init' self') = Some ValueError)"
proof (intro conjI allI impI)
  assume "sum_list (encoders_num_id_vecs self) < 1"
  then show "extend_tokenizer_and_text_encoder init self = (Some ValueError, self)"
    by (simp add: extend_tokenizer_and_text_encoder_def)
next
  fix alls strs
  assume "1 \<le> sum_list (encoders_num_id_vecs self)
        \<and> encoders_loop (subject_string self) (encoders_num_id_vecs self)
             [0..<length (adaface_encoder_types self)] [] [] None = (None, alls, strs)
        \<and> fst (add_tokens (pipeline_tokenizer self) alls) \<noteq> sum_list (encoders_num_id_vecs self)"
  then show "fst (extend_tokenizer_and_text_encoder init self) = Some ValueError"
    using extend_count_mismatch by blast
next
  fix self'
  assume ok: "extend_tokenizer_and_text_encoder init self = (None, self')"
  let ?alls = "all_placeholder_tokens self'"
  let ?v = "vocab (pipeline_tokenizer self)"
  note facts = extend_ok [OF ok]
  have len: "length ?alls = sum_list (encoders_num_id_vecs self)"
    using facts(1,3) by simp
  show "length ?alls = sum_list (encoders_num_id_vecs self)" by (rule len)
  from ok have s1: "sum_list (encoders_num_id_vecs self) \<noteq> 0"
    by (auto simp: extend_tokenizer_and_text_encoder_def simp del: sum_list_eq_0_iff split: if_splits)
  from extend_loop_ok [OF ok] obtain strs where el:
    "encoders_loop (subject_string self) (encoders_num_id_vecs self)
       [0..<length (adaface_encoder_types self)] [] [] None = (None, ?alls, strs)"
    by blast
  obtain n tk where at: "add_tokens (pipeline_tokenizer self) ?alls = (n, tk)"
    by (cases "add_tokens (pipeline_tokenizer self) ?alls")
  from ok s1 el at have "n = sum_list (encoders_num_id_vecs self)"
    by (auto simp: extend_tokenizer_and_text_encoder_def Let_def simp del: sum_list_eq_0_iff
        split: if_splits)
  with at show "fst (add_tokens (pipeline_tokenizer self) ?alls)
      = sum_list (encoders_num_id_vecs self)"
    by simp
  have "vocab (pipeline_tokenizer self') = ?v @ ?alls"
    using facts(1,6) by simp
  then have "add_tokens_loop (vocab (pipeline_tokenizer self')) ?alls 0
      = (0, vocab (pipeline_tokenizer self'))"
    by (simp add: add_tokens_loop_present)
  then show zero: "fst (add_tokens (pipeline_tokenizer self') ?alls) = 0"
    by (simp add: add_tokens_def)
  have el': "encoders_loop (subject_string self') (encoders_num_id_vecs self')
       [0..<length (adaface_encoder_types self')] [] [] None = (None, ?alls, strs)"
    using el facts(12,13,14) by simp
  show "fst (extend_tokenizer_and_text_encoder init' self') = Some ValueError"
  proof (rule extend_count_mismatch [OF _ el'])
    show "1 \<le> sum_list (encoders_num_id_vecs self')" using s1 facts(14) by (simp del: sum_list_eq_0_iff)
    show "fst (add_tokens (pipeline_tokenizer self') ?alls) \<noteq> sum_list (encoders_num_id_vecs self')"
      using zero s1 facts(14) by (simp del: sum_list_eq_0_iff)
  qed
qed


theorem extend_tokenizer_and_text_encoder_fails_witness:
  "sum_list (encoders_num_id_vecs (example_wrapper\<lparr>encoders_num_id_vecs := [0, 0]\<rparr>)) < 1
   \<and> extend_tokenizer_and_text_encoder (\<lambda>k. 0) (example_wrapper\<lparr>encoders_num_id_vecs := [0, 0]\<rparr>)
       = (Some ValueError, example_wrapper\<lparr>encoders_num_id_vecs := [0, 0]\<rparr>)
   \<and> fst (add_tokens \<lparr>vocab = [''a'', ''z_0_1''], unk_token_id = 0\<rparr> [''z_0_0'', ''z_0_1'', ''z_1_0'']) = 2
   \<and> fst (extend_tokenizer_and_text_encoder (\<lambda>k. 0)
          (example_wrapper\<lparr>pipeline_tokenizer := \<lparr>vocab = [''a'', ''z_0_1''], unk_token_id = 0\<rparr>\<rparr>))
       = Some ValueError
   \<and> extend_tokenizer_and_text_encoder (\<lambda>k. 0) example_wrapper = (None, example_extended)
   \<and> fst (extend_tokenizer_and_text_encoder (\<lambda>k. 1) example_extended) = Some ValueError"
proof -
  let ?Z = "example_wrapper\<lparr>encoders_num_id_vecs := [0, 0]\<rparr>"
  let ?C = "example_wrapper\<lparr>pipeline_tokenizer := \<lparr>vocab = [''a'', ''z_0_1''], unk_token_id = 0\<rparr>\<rparr>"
  have z: "sum_list (encoders_num_id_vecs ?Z) < 1"
    by (simp add: example_wrapper_def)
  with extend_tokenizer_and_text_encoder_fails [of ?Z "\<lambda>k. 0"]
  have a: "extend_tokenizer_and_text_encoder (\<lambda>k. 0) ?Z = (Some ValueError, ?Z)"
    by blast
  have c1: "1 \<le> sum_list (encoders_num_id_vecs ?C)"
    by (simp add: example_wrapper_def)
  have c2: "encoders_loop (subject_string ?C) (encoders_num_id_vecs ?C)
       [0..<length (adaface_encoder_types ?C)] [] [] None
     = (None, [''z_0_0'', ''z_0_1'', ''z_1_0''], [''z_0_0 z_0_1'', ''z_1_0''])"
    by code_simp
  have c3: "fst (add_tokens \<lparr>vocab = [''a'', ''z_0_1''], unk_token_id = 0\<rparr>
      [''z_0_0'', ''z_0_1'', ''z_1_0'']) = 2"
    by code_simp
  have c4: "fst (add_tokens (pipeline_tokenizer ?C) [''z_0_0'', ''z_0_1'', ''z_1_0''])
      \<noteq> sum_list (encoders_num_id_vecs ?C)"
    using c3 by (simp add: example_wrapper_def)
  from extend_tokenizer_and_text_encoder_fails [of ?C "\<lambda>k. 0"] c1 c2 c4
  have b: "fst (extend_tokenizer_and_text_encoder (\<lambda>k. 0) ?C) = Some ValueError"
    by blast
  from extend_tokenizer_and_text_encoder_fails [of example_wrapper "\<lambda>k. 0" "\<lambda>k. 1"] example_extend
  have c: "fst (extend_tokenizer_and_text_encoder (\<lambda>k. 1) example_extended) = Some ValueError"
    by blast
  from z a c3 b example_extend c show ?thesis by blast
qed

lemma resize_keeps_old:
  "take (length tbl) (resize_token_embeddings tbl (length tbl + m) init) = tbl"
  by (rule nth_equalityI) (simp_all add: resize_token_embeddings_def)

lemma nth_new_tokens: "map (\<lambda>k. (v @ ts) ! k) [length v..<length v + length ts] = ts"
  by (rule nth_equalityI) (simp_all add: nth_append)

text \<open>
  Claim C4. A vocabulary extension that succeeds allocates, for every encoder index
  \<open>i\<close> and every \<open>j\<close> below that encoder's number of id vectors, the token
  \<^verbatim>\<open>"{subject_string}_{i}_{j}"\<close>, encoder by encoder and inside an encoder by
  \<open>j\<close>; the list has as many tokens as the numbers of id vectors sum to. The tokens
  get the consecutive ids that follow the old vocabulary, so that the table row of the
  \<open>k\<close>-th id belongs to the \<open>k\<close>-th token, and the table is resized to the length of
  the tokenizer: for a table that had one row per token of the old vocabulary, from its
  old size to its old size plus that sum, the old rows staying in place.
\<close>

theorem extend_tokenizer_and_text_encoder_allocates:
  assumes "extend_tokenizer_and_text_encoder init self = (None, self')"
  shows "all_placeholder_tokens self' =
           concat (map (\<lambda>i. map (\<lambda>j. subject_string self @ ''_'' @ str_nat i @ ''_'' @ str_nat j)
                               [0..<encoders_num_id_vecs self ! i])
                       [0..<length (adaface_encoder_types self)])
     \<and> length (all_placeholder_tokens self') = sum_list (encoders_num_id_vecs self)
     \<and> placeholder_token_ids self' =
           [length (vocab (pipeline_tokenizer self))..<
              length (vocab (pipeline_tokenizer self)) + sum_list (encoders_num_id_vecs self)]
     \<and> map (\<lambda>k. vocab (pipeline_tokenizer self') ! k) (placeholder_token_ids self')
           = all_placeholder_tokens self'
     \<and> length (token_embeds self') = length (vocab (pipeline_tokenizer self'))
     \<and> (length (token_embeds self) = length (vocab (pipeline_tokenizer self)) \<longrightarrow>
           length (token_embeds self') = length (token_embeds self) + sum_list (encoders_num_id_vecs self)
           \<and> take (length (token_embeds self)) (token_embeds self') = token_embeds self)"
proof -
  note facts = extend_ok [OF assms]
  let ?v = "vocab (pipeline_tokenizer self)"
  let ?alls = "all_placeholder_tokens self'"
  have len: "length ?alls = sum_list (encoders_num_id_vecs self)"
    using facts(1,3) by simp
  have voc: "vocab (pipeline_tokenizer self') = ?v @ ?alls"
    using facts(1,6) by simp
  have ids: "placeholder_token_ids self' = [length ?v..<length ?v + length ?alls]"
    using facts(1,7) by simp
  have tbl: "token_embeds self'
      = resize_token_embeddings (token_embeds self) (length ?v + length ?alls) init"
    using facts(1,8) by simp
  have "?alls = concat (map (\<lambda>i. map (\<lambda>j. subject_string self @ ''_'' @ str_nat i @ ''_'' @ str_nat j)
                               [0..<encoders_num_id_vecs self ! i])
                       [0..<length (adaface_encoder_types self)])"
    using facts(1) by (simp add: encoder_tokens_def [abs_def] placeholder_token_def [abs_def])
  moreover have "map (\<lambda>k. vocab (pipeline_tokenizer self') ! k) (placeholder_token_ids self') = ?alls"
    unfolding voc ids by (rule nth_new_tokens)
  moreover have "length (token_embeds self') = length (vocab (pipeline_tokenizer self'))"
    by (simp add: tbl voc resize_token_embeddings_def)
  moreover have "length (token_embeds self) = length ?v \<longrightarrow>
      length (token_embeds self') = length (token_embeds self) + sum_list (encoders_num_id_vecs self)
      \<and> take (length (token_embeds self)) (token_embeds self') = token_embeds self"
  proof
    assume eq: "length (token_embeds self) = length ?v"
    have "length (token_embeds self') = length (token_embeds self) + sum_list (encoders_num_id_vecs self)"
      using eq len by (simp add: tbl resize_token_embeddings_def)
    moreover have "take (length (token_embeds self)) (token_embeds self') = token_embeds self"
      unfolding tbl eq [symmetric] by (rule resize_keeps_old)
    ultimately show "length (token_embeds self') = length (token_embeds self) + sum_list (encoders_num_id_vecs self)
      \<and> take (length (token_embeds self)) (token_embeds self') = token_embeds self"
      by blast
  qed
  ultimately show ?thesis using len ids by simp
qed

theorem extend_tokenizer_and_text_encoder_allocates_witness:
  "extend_tokenizer_and_text_encoder (\<lambda>k. 0) example_wrapper = (None, example_extended)
   \<and> all_placeholder_tokens example_extended = [''z_0_0'', ''z_0_1'', ''z_1_0'']
   \<and> length (all_placeholder_tokens example_extended) = 3
   \<and> placeholder_token_ids example_extended = [3, 4, 5]
   \<and> length (token_embeds example_wrapper) = length (vocab (pipeline_tokenizer example_wrapper))
   \<and> length (token_embeds example_extended) = length (token_embeds example_wrapper) + 3
   \<and> take 3 (token_embeds example_extended) = token_embeds example_wrapper"
proof -
  have eq: "length (token_embeds example_wrapper) = length (vocab (pipeline_tokenizer example_wrapper))"
    by (simp add: example_wrapper_def)
  have s: "sum_list (encoders_num_id_vecs example_wrapper) = 3"
    and l: "length (token_embeds example_wrapper) = 3"
    by (simp_all add: example_wrapper_def)
  from extend_tokenizer_and_text_encoder_allocates [OF example_extend] eq
  have "length (all_placeholder_tokens example_extended) = sum_list (encoders_num_id_vecs example_wrapper)"
    and "length (token_embeds example_extended)
        = length (token_embeds example_wrapper) + sum_list (encoders_num_id_vecs example_wrapper)"
    and "take (length (token_embeds example_wrapper)) (token_embeds example_extended)
        = token_embeds example_wrapper"
    by blast+
  then have "length (all_placeholder_tokens example_extended) = 3"
    and "length (token_embeds example_extended) = length (token_embeds example_wrapper) + 3"
    and "take 3 (token_embeds example_extended) = token_embeds example_wrapper"
    unfolding s l by blast+
  moreover have "all_placeholder_tokens example_extended = [''z_0_0'', ''z_0_1'', ''z_1_0'']"
    and "placeholder_token_ids example_extended = [3, 4, 5]"
    by (simp_all add: example_extended_def)
  ultimately show ?thesis using example_extend eq by blast
qed

subsection \<open>State dict loading, embedding preparation, the flux backend\<close>

lemma dict_set_new: "k \<notin> fst ` set d \<Longrightarrow> dict_set d k v = d @ [(k, v)]"
  by (induction d) auto

lemma prefix_keys_loop_map:
  "distinct (map fst d2 @ map (\<lambda>kv. p @ fst kv) items) \<Longrightarrow>
     prefix_keys_loop p items d2 = d2 @ map (\<lambda>(k, v). (p @ k, v)) items"
proof (induction items arbitrary: d2)
  case Nil
  then show ?case by simp
next
  case (Cons kv items)
  obtain k v where kv: "kv = (k, v)" by (cases kv)
  from Cons.prems have new: "p @ k \<notin> fst ` set d2"
    by (auto simp: kv)
  from Cons.prems have "distinct (map fst (d2 @ [(p @ k, v)]) @ map (\<lambda>kv. p @ fst kv) items)"
    by (auto simp: kv)
  from Cons.IH [OF this] show ?case
    by (simp add: kv dict_set_new [OF new])
qed

lemma prefix_keys_loop_distinct:
  assumes "distinct (map fst d)"
  shows "prefix_keys_loop p d [] = map (\<lambda>(k, v). (p @ k, v)) d"
proof -
  have "inj_on (\<lambda>kv. p @ fst kv) (set d)"
  proof (rule inj_onI)
    fix x y assume "x \<in> set d" "y \<in> set d" "p @ fst x = p @ fst y"
    then have "fst x = fst y" by simp
    with assms \<open>x \<in> set d\<close> \<open>y \<in> set d\<close> show "x = y"
      by (metis distinct_map inj_onD)
  qed
  moreover have "distinct d" using assms by (simp add: distinct_map)
  ultimately have "distinct (map (\<lambda>kv. p @ fst kv) d)"
    by (simp add: distinct_map)
  then have "distinct (map fst [] @ map (\<lambda>kv. p @ fst kv) d)" by simp
  from prefix_keys_loop_map [OF this] show ?thesis by simp
qed

text \<open>
  Claim C8. For a file that holds a non-empty state dict, the first key decides: when
  it starts with \<^verbatim>\<open>model.diffusion_model\<close> the dict goes to the converter with its
  keys as they are; when it starts with \<^verbatim>\<open>diffusion_model\<close> every key gets the
  prefix \<^verbatim>\<open>model.\<close> before the conversion; otherwise the dict is returned as loaded,
  unconverted.
\<close>

theorem load_unet_from_file_prefix_sniffing:
  assumes "isfile unet_path"
    and "(if endswith unet_path ''.safetensors'' then safetensors_load_file unet_path
          else torch_load unet_path) = (key0, val0) # items"
    and "distinct (map fst ((key0, val0) # items))"
  shows "load_unet_from_file isfile safetensors_load_file torch_load convert unet_path =
     (if startswith key0 ''model.diffusion_model''
        then Inr (convert ((key0, val0) # items))
      else if startswith key0 ''diffusion_model''
        then Inr (convert (map (\<lambda>(k, v). (''model.'' @ k, v)) ((key0, val0) # items)))
      else Inr ((key0, val0) # items))"
proof -
  let ?d = "(key0, val0) # items"
  have a: "prefix_keys_loop [] ?d [] = ?d"
    using prefix_keys_loop_distinct [OF assms(3), of "[]"] by (simp add: case_prod_beta)
  have b: "prefix_keys_loop ''model.'' ?d [] = map (\<lambda>(k, v). (''model.'' @ k, v)) ?d"
    by (rule prefix_keys_loop_distinct [OF assms(3)])
  show ?thesis
    unfolding load_unet_from_file_def Let_def assms(2) using assms(1) a b by simp
qed

theorem load_unet_from_file_prefix_sniffing_witness:
  "load_unet_from_file (\<lambda>p. True)
       (\<lambda>p. [(''model.diffusion_model.out.weight'', 1), (''model.diffusion_model.out.bias'', 2 :: int)])
       (\<lambda>p. []) rev ''unet.safetensors''
     = Inr [(''model.diffusion_model.out.bias'', 2), (''model.diffusion_model.out.weight'', 1)]
   \<and> load_unet_from_file (\<lambda>p. True) (\<lambda>p. [])
       (\<lambda>p. [(''diffusion_model.out.weight'', 1), (''diffusion_model.out.bias'', 2 :: int)])
       rev ''unet.ckpt''
     = Inr [(''model.diffusion_model.out.bias'', 2), (''model.diffusion_model.out.weight'', 1)]
   \<and> load_unet_from_file (\<lambda>p. True) (\<lambda>p. [])
       (\<lambda>p. [(''conv_in.weight'', 1), (''conv_in.bias'', 2 :: int)])
       rev ''unet.ckpt''
     = Inr [(''conv_in.weight'', 1), (''conv_in.bias'', 2)]"
proof -
  have "load_unet_from_file (\<lambda>p. True)
       (\<lambda>p. [(''model.diffusion_model.out.weight'', 1), (''model.diffusion_model.out.bias'', 2 :: int)])
       (\<lambda>p. []) rev ''unet.safetensors''
     = Inr [(''model.diffusion_model.out.bias'', 2), (''model.diffusion_model.out.weight'', 1)]"
    using load_unet_from_file_prefix_sniffing [of "\<lambda>p. True" "''unet.safetensors''"
        "\<lambda>p. [(''model.diffusion_model.out.weight'', 1), (''model.diffusion_model.out.bias'', 2 :: int)]"
        "\<lambda>p. []" "''model.diffusion_model.out.weight''" 1
        "[(''model.diffusion_model.out.bias'', 2)]" rev]
    by (simp add: endswith_def startswith_def)
  moreover have "load_unet_from_file (\<lambda>p. True) (\<lambda>p. [])
       (\<lambda>p. [(''diffusion_model.out.weight'', 1), (''diffusion_model.out.bias'', 2 :: int)])
       rev ''unet.ckpt''
     = Inr [(''model.diffusion_model.out.bias'', 2), (''model.diffusion_model.out.weight'', 1)]"
    using load_unet_from_file_prefix_sniffing [of "\<lambda>p. True" "''unet.ckpt''" "\<lambda>p. []"
        "\<lambda>p. [(''diffusion_model.out.weight'', 1), (''diffusion_model.out.bias'', 2 :: int)]"
        "''diffusion_model.out.weight''" 1 "[(''diffusion_model.out.bias'', 2)]" rev]
    by (simp add: endswith_def startswith_def)
  moreover have "load_unet_from_file (\<lambda>p. True) (\<lambda>p. [])
       (\<lambda>p. [(''conv_in.weight'', 1), (''conv_in.bias'', 2 :: int)])
       rev ''unet.ckpt''
     = Inr [(''conv_in.weight'', 1), (''conv_in.bias'', 2)]"
    using load_unet_from_file_prefix_sniffing [of "\<lambda>p. True" "''unet.ckpt''" "\<lambda>p. []"
        "\<lambda>p. [(''conv_in.weight'', 1), (''conv_in.bias'', 2 :: int)]"
        "''conv_in.weight''" 1 "[(''conv_in.bias'', 2)]" rev]
    by (simp add: endswith_def startswith_def)
  ultimately show ?thesis by blast
qed

lemma embeddings_loop_eq:
  "embeddings_loop encs args all_subj all_neg =
     (all_subj @ map (\<lambda>enc. fst (enc args)) encs,
      all_neg @ map (\<lambda>enc. case snd (enc args) of
                              None \<Rightarrow> zeros_like (fst (enc args))
                            | Some neg \<Rightarrow> neg) encs)"
  by (induction encs arbitrary: all_subj all_neg) (auto split: prod.splits option.splits)

lemma length_concat_eq:
  "\<forall>x\<in>set xs. length (f x) = length (g x) \<Longrightarrow>
     length (concat (map f xs)) = length (concat (map g xs))"
  by (induction xs) auto

text \<open>
  Claim C7. For every encoder that returns no negative embeddings the preparation
  puts a zero tensor with the rows of that encoder's subject embeddings in their place
  and does not fail for it. With every negative tensor that an encoder does return
  having the shape of its subject embeddings (the contract of the encoders), the
  negative batch returned has the shape of the subject batch returned.
\<close>

theorem prepare_adaface_embeddings_negative_shape:
  assumes "id2ada_prompt_encoders \<noteq> []"
    and "\<forall>enc\<in>set id2ada_prompt_encoders.
           case snd (enc args) of None \<Rightarrow> True
           | Some neg \<Rightarrow> length neg = length (fst (enc args))"
  shows "\<exists>subj neg.
      subj = concat (map (\<lambda>enc. fst (enc args)) id2ada_prompt_encoders)
      \<and> neg = concat (map (\<lambda>enc. case snd (enc args) of
                                     None \<Rightarrow> replicate (length (fst (enc args))) 0
                                   | Some neg \<Rightarrow> neg) id2ada_prompt_encoders)
      \<and> length neg = length subj
      \<and> prepare_adaface_embeddings to_dtype self id2ada_prompt_encoders args False
          = (None, self\<lparr>all_teacher_neg_id_prompt_embs := Some neg\<rparr>, Some (subj, neg))
      \<and> prepare_adaface_embeddings to_dtype self id2ada_prompt_encoders args True
          = (case update_text_encoder_subj_embs to_dtype self subj of
               (Some e, self1) \<Rightarrow> (Some e, self1, None)
             | (None, self1) \<Rightarrow>
                 (None, self1\<lparr>all_teacher_neg_id_prompt_embs := Some neg\<rparr>, Some (subj, neg)))"
proof -
  let ?f = "\<lambda>enc. fst (enc args)"
  let ?g = "\<lambda>enc. case snd (enc args) of
                None \<Rightarrow> replicate (length (fst (enc args))) (0::'b)
              | Some neg \<Rightarrow> neg"
  have g: "(\<lambda>enc. case snd (enc args) of None \<Rightarrow> zeros_like (fst (enc args)) | Some neg \<Rightarrow> neg) = ?g"
    by (rule ext) (simp add: zeros_like_def map_replicate_const split: option.splits)
  have "\<forall>enc\<in>set id2ada_prompt_encoders. length (?g enc) = length (?f enc)"
    using assms(2) by (auto split: option.splits)
  then have len: "length (concat (map ?g id2ada_prompt_encoders))
      = length (concat (map ?f id2ada_prompt_encoders))"
    by (rule length_concat_eq)
  have loop: "embeddings_loop id2ada_prompt_encoders args [] []
      = (map ?f id2ada_prompt_encoders, map ?g id2ada_prompt_encoders)"
    by (simp add: embeddings_loop_eq g)
  have "prepare_adaface_embeddings to_dtype self id2ada_prompt_encoders args False
      = (None, self\<lparr>all_teacher_neg_id_prompt_embs := Some (concat (map ?g id2ada_prompt_encoders))\<rparr>,
         Some (concat (map ?f id2ada_prompt_encoders), concat (map ?g id2ada_prompt_encoders)))"
    using assms(1) by (simp add: prepare_adaface_embeddings_def loop torch_cat_def)
  moreover have "prepare_adaface_embeddings to_dtype self id2ada_prompt_encoders args True
      = (case update_text_encoder_subj_embs to_dtype self (concat (map ?f id2ada_prompt_encoders)) of
           (Some e, self1) \<Rightarrow> (Some e, self1, None)
         | (None, self1) \<Rightarrow>
             (None, self1\<lparr>all_teacher_neg_id_prompt_embs := Some (concat (map ?g id2ada_prompt_encoders))\<rparr>,
              Some (concat (map ?f id2ada_prompt_encoders), concat (map ?g id2ada_prompt_encoders))))"
    using assms(1) by (simp add: prepare_adaface_embeddings_def loop torch_cat_def)
  ultimately show ?thesis using len by blast
qed


theorem prepare_adaface_embeddings_negative_shape_witness:
  "prepare_adaface_embeddings example_to_float16 example_extended
       [\<lambda>u. ([1, 2], None), \<lambda>u. ([3], Some [- 3])] () False
     = (None, example_extended\<lparr>all_teacher_neg_id_prompt_embs := Some [0, 0, - 3]\<rparr>,
        Some ([1, 2, 3], [0, 0, - 3]))
   \<and> length [0, 0, - 3 :: int] = length [1, 2, 3 :: int]"
proof -
  let ?encs = "[\<lambda>u. ([1, 2], None), \<lambda>u. ([3], Some [- 3])] :: (unit, int) id2ada_prompt_encoder list"
  have ne: "?encs \<noteq> []" by simp
  have c: "\<forall>enc\<in>set ?encs. case snd (enc ()) of None \<Rightarrow> True
      | Some neg \<Rightarrow> length neg = length (fst (enc ()))"
    by simp
  from prepare_adaface_embeddings_negative_shape
    [OF ne c, where self = example_extended and to_dtype = example_to_float16]
  show ?thesis by (simp add: numeral_2_eq_2)
qed

text \<open>
  Claim C10. With the pipeline name \<^verbatim>\<open>flux\<close> (a FluxPipeline, which has
  \<^verbatim>\<open>encode_prompt\<close>), \<^verbatim>\<open>encode_prompt\<close> returns \<^verbatim>\<open>None\<close> for the negative
  embedding and for the negative pooled embedding whatever the negative prompt is,
  \<^verbatim>\<open>forward\<close> hands the sampler the prompt embedding and the pooled embedding only, and
  two runs of \<^verbatim>\<open>forward\<close> that differ in the negative prompt alone hand the sampler the
  same arguments.
\<close>

theorem flux_negative_prompt_no_effect:
  assumes "pipeline_name self = Some ''flux''" and "pipe_has_encode_prompt P"
  shows "(case update_prompt self prompt of
            Inl e \<Rightarrow>
              encode_prompt P self prompt neg1 = Inl e
              \<and> forward P self noise prompt neg1 teacher guidance_scale n strength generator = Inl e
          | Inr p \<Rightarrow>
              (case pipe_encode_prompt_flux P p (prompt_t5_of p) of
                 (pe, pp, text_ids) \<Rightarrow>
                   encode_prompt P self prompt neg1 = Inr (pe, None, Some pp, None)
                   \<and> forward P self noise prompt neg1 teacher guidance_scale n strength generator
                       = Inr (FluxCall (tensor_repeat3 P pe n) (Some pp) 4 guidance_scale generator)))
     \<and> forward P self noise prompt neg1 teacher guidance_scale n strength generator
         = forward P self noise prompt neg2 teacher guidance_scale n strength generator"
proof -
  have enc: "encode_prompt P self prompt neg =
      (case update_prompt self prompt of
         Inl e \<Rightarrow> Inl e
       | Inr p \<Rightarrow> (case pipe_encode_prompt_flux P p (prompt_t5_of p) of
                     (pe, pp, text_ids) \<Rightarrow> Inr (pe, None, Some pp, None)))" for neg
    using assms
    by (simp add: encode_prompt_def Let_def split: sum.splits prod.splits)
  have fwd: "forward P self noise prompt neg teacher guidance_scale n strength generator =
      (case update_prompt self prompt of
         Inl e \<Rightarrow> Inl e
       | Inr p \<Rightarrow> (case pipe_encode_prompt_flux P p (prompt_t5_of p) of
                     (pe, pp, text_ids) \<Rightarrow>
                       Inr (FluxCall (tensor_repeat3 P pe n) (Some pp) 4 guidance_scale generator)))"
    for neg
    using assms(1)
    by (simp add: forward_def enc Let_def split: sum.splits prod.splits)
  show ?thesis
    by (simp add: enc fwd split: sum.splits prod.splits)
qed


theorem flux_negative_prompt_no_effect_witness:
  "pipeline_name example_flux_wrapper = Some ''flux''
   \<and> pipe_has_encode_prompt example_flux_backend
   \<and> update_prompt example_flux_wrapper (Some ''a z cat'') = Inr ''z_0_0 z_0_1  cat z_1_0''
   \<and> encode_prompt example_flux_backend example_flux_wrapper (Some ''a z cat'') (Some ''ugly'')
       = Inr (''emb z_0_0 z_0_1  cat z_1_0'', None, Some ''pooled z_0_0 z_0_1  cat z_1_0'', None)
   \<and> forward example_flux_backend example_flux_wrapper () (Some ''a z cat'') (Some ''ugly'') None
         (4::int) 2 1 ()
       = Inr (FluxCall ''emb z_0_0 z_0_1  cat z_1_0;emb z_0_0 z_0_1  cat z_1_0;''
                (Some ''pooled z_0_0 z_0_1  cat z_1_0'') 4 4 ())
   \<and> forward example_flux_backend example_flux_wrapper () (Some ''a z cat'') (Some ''ugly'') None
         (4::int) 2 1 ()
       = forward example_flux_backend example_flux_wrapper () (Some ''a z cat'') None None
           (4::int) 2 1 ()"
proof -
  have n: "pipeline_name example_flux_wrapper = Some ''flux''"
    by (simp add: example_flux_wrapper_def)
  have h: "pipe_has_encode_prompt example_flux_backend"
    by (simp add: example_flux_backend_def)
  have up: "update_prompt example_flux_wrapper (Some ''a z cat'') = Inr ''z_0_0 z_0_1  cat z_1_0''"
    by code_simp
  have fl: "pipe_encode_prompt_flux example_flux_backend p p2 = (''emb '' @ p, ''pooled '' @ p, ''ids'')"
    for p p2
    by (simp add: example_flux_backend_def)
  have rp: "tensor_repeat3 example_flux_backend t 2 = (t @ '';'') @ (t @ '';'')" for t
    by (simp add: example_flux_backend_def numeral_2_eq_2)
  from flux_negative_prompt_no_effect [OF n h, of "Some ''a z cat''" "Some ''ugly''" "()" None 4 2 1 "()" None]
  show ?thesis
    using n h by (simp add: up fl rp)
qed

subsection \<open>Prompt composition\<close>

lemma word_not_space: "is_word c \<Longrightarrow> \<not> is_space c"
  by (auto simp: is_word_def is_space_def Let_def)

lemma startswith_Nil [simp]: "startswith s []"
  by (simp add: startswith_def)

lemma startswith_Cons:
  "startswith s (c # w) = (case s of [] \<Rightarrow> False | x # xs \<Rightarrow> x = c \<and> startswith xs w)"
  by (cases s) (auto simp: startswith_def)

lemma startswith_append: "startswith s w \<Longrightarrow> s = w @ drop (length w) s"
  by (metis append_take_drop_id startswith_def)

lemma rmatch_lits:
  "rmatch (lits w) (p, s) =
     (if startswith s w then [(if w = [] then p else Some (last w), drop (length w) s)] else [])"
proof (induction w arbitrary: p s)
  case Nil
  then show ?case by simp
next
  case (Cons c w)
  show ?case
  proof (cases s)
    case Nil
    then show ?thesis by (simp add: startswith_Cons)
  next
    case (Cons x xs)
    then show ?thesis by (simp add: startswith_Cons Cons.IH)
  qed
qed

lemma rmatch_plus_space:
  "rmatch (Plus Space) (p, s) =
     (case s of [] \<Rightarrow> []
      | c # cs \<Rightarrow> if is_space c then rmatch (Plus Space) (Some c, cs) @ [(Some c, cs)] else [])"
  by (cases s) simp_all

lemma rmatch_Seq: "rmatch (Seq a b) ps = concat (map (rmatch b) (rmatch a ps))"
  by simp

lemma rmatch_Alt: "rmatch (Alt a b) ps = rmatch a ps @ rmatch b ps"
  by simp

lemma rmatch_Bound_Seq:
  "rmatch (Seq Bound a) ps = (if word_before ps \<noteq> word_after ps then rmatch a ps else [])"
  by simp

lemma rmatch_Lit_lits: "rmatch (Lit c) ps = rmatch (lits [c]) ps"
  by (cases "snd ps") simp_all

declare rmatch.simps [simp del] lits.simps [simp del]

lemma first_simps [simp]: "first [] = None" "first (x # xs) = Some x"
  by (simp_all add: first_def)

lemma first_append: "first (xs @ ys) = (case first xs of Some x \<Rightarrow> Some x | None \<Rightarrow> first ys)"
  by (cases xs) simp_all

lemma first_match_first: "first_match r False ps = first (rmatch r ps)"
  by (cases "rmatch r ps") (simp_all add: first_match_def)

lemma rmatch_tail:
  assumes "subj \<noteq> []" and "is_word (last subj)"
  shows "first (rmatch (Seq (lits subj) (Seq Bound (Opt (Lit CHR '','')))) (p, r))
     = subject_here subj r"
proof (cases "startswith r subj")
  case False
  then show ?thesis by (simp add: rmatch_lits subject_here_def rmatch_Seq)
next
  case True
  let ?q = "(Some (last subj), drop (length subj) r)"
  have wb: "word_before ?q" using assms(2) by (simp add: word_before_def)
  show ?thesis
  proof (cases "word_after ?q")
    case True
    with wb \<open>startswith r subj\<close> assms(1) show ?thesis
      by (simp add: rmatch_lits subject_here_def rmatch_Seq [of "lits _"] rmatch_Bound_Seq)
  next
    case False
    with wb \<open>startswith r subj\<close> assms(1) show ?thesis
      by (cases "drop (length subj) r")
        (simp_all add: rmatch_lits subject_here_def optional_comma_def rmatch_Seq [of "lits _"]
          rmatch_Bound_Seq rmatch.simps)
  qed
qed

lemma rmatch_tail_space:
  assumes "subj \<noteq> []" and "is_word (hd subj)" and "is_space c"
  shows "rmatch (Seq (lits subj) R) (p, c # cs) = []"
proof -
  have "\<not> startswith (c # cs) subj"
    using assms by (cases subj) (auto simp: startswith_Cons dest: word_not_space)
  then show ?thesis by (simp add: rmatch_lits rmatch_Seq)
qed

lemma plus_space_then:
  assumes "\<And>p' c cs. is_space c \<Longrightarrow> g (p', c # cs) = []"
  shows "concat (map g (rmatch (Plus Space) (p, s))) =
     (if takeWhile is_space s = [] then []
      else g (Some (last (takeWhile is_space s)), dropWhile is_space s))"
proof (induction s arbitrary: p)
  case Nil
  then show ?case by (simp add: rmatch_plus_space)
next
  case (Cons c cs)
  show ?case
  proof (cases "is_space c")
    case False
    then show ?thesis by (simp add: rmatch_plus_space)
  next
    case True
    then have unf: "rmatch (Plus Space) (p, c # cs) = rmatch (Plus Space) (Some c, cs) @ [(Some c, cs)]"
      by (subst rmatch_plus_space) simp
    show ?thesis
    proof (cases cs)
      case Nil
      with True unf show ?thesis by (simp add: rmatch_plus_space [of _ "[]"])
    next
      case (Cons d ds)
      show ?thesis
      proof (cases "is_space d")
        case sp: True
        then have "g (Some c, cs) = []" using assms Cons by simp
        with True sp Cons Cons.IH [of "Some c"] unf show ?thesis by simp
      next
        case nsp: False
        then have "rmatch (Plus Space) (Some c, cs) = []"
          using Cons by (simp add: rmatch_plus_space [of _ "d # ds"])
        with True nsp Cons unf show ?thesis by simp
      qed
    qed
  qed
qed

lemma is_word_letters: "is_word CHR ''a''" "is_word CHR ''t''"
  by (simp_all add: is_word_def)

lemma article_alternative:
  assumes "subj \<noteq> []" and "\<forall>c\<in>set subj. is_word c" and "a \<noteq> []"
  shows "first (concat (map (rmatch (Seq (Plus Space)
              (Seq (lits subj) (Seq Bound (Opt (Lit CHR '','')))))) (rmatch (lits a) (p, s))))
     = article_then_subject subj a s"
proof (cases "startswith s a")
  case False
  then show ?thesis by (simp add: rmatch_lits article_then_subject_def)
next
  case True
  let ?T = "Seq (lits subj) (Seq Bound (Opt (Lit CHR '','')))"
  let ?r = "drop (length a) s"
  have hd: "is_word (hd subj)" and lst: "is_word (last subj)"
    using assms(1,2) by simp_all
  have "concat (map (rmatch ?T) (rmatch (Plus Space) (Some (last a), ?r))) =
     (if takeWhile is_space ?r = [] then []
      else rmatch ?T (Some (last (takeWhile is_space ?r)), dropWhile is_space ?r))"
    by (rule plus_space_then) (rule rmatch_tail_space [OF assms(1) hd])
  with True assms(3) show ?thesis
    by (simp add: rmatch_lits article_then_subject_def rmatch_tail [OF assms(1) lst]
        rmatch_Seq [of "Plus Space"])
qed

lemma first_match_article:
  assumes "subj \<noteq> []" and "\<forall>c\<in>set subj. is_word c"
  shows "first_match (article_pattern subj) False ps = article_occurrence subj ps"
proof -
  let ?G = "Seq (Plus Space) (Seq (lits subj) (Seq Bound (Opt (Lit CHR '',''))))"
  obtain p s where ps: "ps = (p, s)" by (cases ps)
  have alt: "rmatch (Alt (Lit CHR ''a'') (Alt (lits ''an'') (lits ''the''))) (p, s)
      = rmatch (lits ''a'') (p, s) @ rmatch (lits ''an'') (p, s) @ rmatch (lits ''the'') (p, s)"
    by (simp only: rmatch_Alt rmatch_Lit_lits)
  have body: "first (rmatch (Seq (Alt (Lit CHR ''a'') (Alt (lits ''an'') (lits ''the''))) ?G) (p, s))
      = (case article_then_subject subj ''a'' s of
           Some q \<Rightarrow> Some q
         | None \<Rightarrow> (case article_then_subject subj ''an'' s of
                      Some q \<Rightarrow> Some q
                    | None \<Rightarrow> article_then_subject subj ''the'' s))"
    unfolding rmatch_Seq [of "Alt _ _"] alt map_append concat_append first_append
    by (simp only: article_alternative [OF assms, of "''a''"] article_alternative [OF assms, of "''an''"]
        article_alternative [OF assms, of "''the''"] list.distinct not_False_eq_True simp_thms)
  show ?thesis
  proof (cases "word_before ps \<noteq> word_after ps")
    case True
    show ?thesis
    proof (cases "word_before ps")
      case wb: True
      with True have "\<not> word_after (p, s)" by (simp add: ps)
      then have "\<not> startswith s ''a''" "\<not> startswith s ''an''" "\<not> startswith s ''the''"
        using is_word_letters by (auto simp: word_after_def startswith_Cons split: list.splits)
      then have "rmatch (article_pattern subj) ps = []"
        by (simp add: article_pattern_def ps rmatch_lits rmatch_Bound_Seq rmatch_Seq [of "Alt _ _"]
            rmatch_Alt rmatch_Lit_lits)
      with wb show ?thesis
        by (simp add: first_match_first article_occurrence_def)
    next
      case nwb: False
      with True have "rmatch (article_pattern subj) ps
          = rmatch (Seq (Alt (Lit CHR ''a'') (Alt (lits ''an'') (lits ''the''))) ?G) (p, s)"
        by (simp add: article_pattern_def ps rmatch_Bound_Seq)
      with nwb body show ?thesis
        unfolding first_match_first article_occurrence_def ps snd_conv by simp
    qed
  next
    case False
    then have nil: "rmatch (article_pattern subj) ps = []"
      by (simp add: article_pattern_def rmatch_Bound_Seq)
    show ?thesis
    proof (cases "word_before ps")
      case True
      with nil show ?thesis by (simp add: first_match_first article_occurrence_def)
    next
      case nwb: False
      with False have "\<not> word_after (p, s)" by (simp add: ps)
      then have "\<not> startswith s ''a''" "\<not> startswith s ''an''" "\<not> startswith s ''the''"
        using is_word_letters by (auto simp: word_after_def startswith_Cons split: list.splits)
      then have "article_then_subject subj ''a'' s = None"
        "article_then_subject subj ''an'' s = None" "article_then_subject subj ''the'' s = None"
        by (simp_all add: article_then_subject_def)
      with nil nwb show ?thesis
        unfolding first_match_first article_occurrence_def ps snd_conv by simp
    qed
  qed
qed

lemma first_match_bare:
  assumes "subj \<noteq> []" and "\<forall>c\<in>set subj. is_word c"
  shows "first_match (bare_pattern subj) False ps = bare_occurrence subj ps"
proof -
  obtain p s where ps: "ps = (p, s)" by (cases ps)
  have lst: "is_word (last subj)" and hd: "is_word (hd subj)" using assms by simp_all
  have sw: "startswith s subj \<Longrightarrow> word_after (p, s)"
    using assms(1) hd by (cases subj; cases s) (auto simp: startswith_Cons word_after_def)
  show ?thesis
  proof (cases "word_before ps \<noteq> word_after ps")
    case True
    then have eq: "rmatch (bare_pattern subj) ps
        = rmatch (Seq (lits subj) (Seq Bound (Opt (Lit CHR '','')))) (p, s)"
      by (simp add: bare_pattern_def ps rmatch_Bound_Seq)
    show ?thesis
    proof (cases "word_before ps")
      case wb: True
      with True have "\<not> word_after (p, s)" by (simp add: ps)
      with sw have "\<not> startswith s subj" by blast
      with eq wb show ?thesis
        by (simp add: first_match_first bare_occurrence_def rmatch_lits rmatch_Seq)
    next
      case False
      with eq show ?thesis
        by (simp add: first_match_first bare_occurrence_def rmatch_tail [OF assms(1) lst] ps)
    qed
  next
    case False
    then have nil: "rmatch (bare_pattern subj) ps = []"
      by (simp add: bare_pattern_def rmatch_Bound_Seq)
    show ?thesis
    proof (cases "word_before ps")
      case True
      with nil show ?thesis by (simp add: first_match_first bare_occurrence_def)
    next
      case nwb: False
      with False have "\<not> word_after (p, s)" by (simp add: ps)
      with sw have "\<not> startswith s subj" by blast
      with nil nwb show ?thesis
        by (simp add: first_match_first bare_occurrence_def subject_here_def ps)
    qed
  qed
qed


lemma word_before_opt [simp]: "word_before (p, s) = word_opt p"
  by (simp add: word_before_def word_opt_def)

lemma word_after_starts [simp]: "word_after (p, s) = starts_word s"
  by (simp add: word_after_def starts_word_def)

lemma starts_word_simps [simp]: "\<not> starts_word []" "starts_word (c # cs) = is_word c"
  by (simp_all add: starts_word_def)

lemma word_opt_simps [simp]: "\<not> word_opt None" "word_opt (Some c) = is_word c"
  by (simp_all add: word_opt_def)

lemma optional_comma_shorter: "length (snd (optional_comma q)) \<le> length (snd q)"
  by (cases q; cases "snd q") (auto simp: optional_comma_def)

lemma subject_here_shorter:
  assumes "subj \<noteq> []" and "subject_here subj r = Some q"
  shows "length (snd q) < length r"
proof -
  from assms(2) have sw: "startswith r subj"
    and q: "q = optional_comma (Some (last subj), drop (length subj) r)"
    by (auto simp: subject_here_def split: if_splits)
  from sw have "length subj \<le> length r"
    by (metis startswith_append length_append le_add1)
  with assms(1) have "length (drop (length subj) r) < length r"
    by (cases subj) auto
  with optional_comma_shorter [of "(Some (last subj), drop (length subj) r)"] q
  show ?thesis by simp
qed

lemma article_then_subject_shorter:
  assumes "subj \<noteq> []" and "article_then_subject subj a s = Some q"
  shows "length (snd q) < length s"
proof -
  from assms(2) have "subject_here subj (dropWhile is_space (drop (length a) s)) = Some q"
    by (auto simp: article_then_subject_def split: if_splits)
  from subject_here_shorter [OF assms(1) this]
  have "length (snd q) < length (dropWhile is_space (drop (length a) s))" .
  also have "\<dots> \<le> length (drop (length a) s)" by (rule length_dropWhile_le)
  also have "\<dots> \<le> length s" by simp
  finally show ?thesis .
qed

lemma article_occurrence_shorter:
  assumes "subj \<noteq> []" and "article_occurrence subj ps = Some q"
  shows "length (snd q) < length (snd ps)"
  using assms(2) article_then_subject_shorter [OF assms(1)]
  by (auto simp: article_occurrence_def split: if_splits option.splits)

lemma bare_occurrence_shorter:
  assumes "subj \<noteq> []" and "bare_occurrence subj ps = Some q"
  shows "length (snd q) < length (snd ps)"
  using assms(2) subject_here_shorter [OF assms(1)]
  by (auto simp: bare_occurrence_def split: if_splits)

lemma occurrence_shorter:
  assumes "subj \<noteq> []" and "occurrence subj ps = Some q"
  shows "length (snd q) < length (snd ps)"
  using assms(2) article_occurrence_shorter [OF assms(1)] bare_occurrence_shorter [OF assms(1)]
  by (auto simp: occurrence_def split: option.splits)

lemma re_sub_empty_unfold:
  assumes "\<And>q. first_match r False (p, s) = Some q \<Longrightarrow> length (snd q) < length s"
  shows "re_sub_empty r p s =
     (case first_match r False (p, s) of
        None \<Rightarrow> (case s of [] \<Rightarrow> [] | c # cs \<Rightarrow> c # re_sub_empty r (Some c) cs)
      | Some (p', s') \<Rightarrow> re_sub_empty r p' s')"
proof (cases "first_match r False (p, s)")
  case None
  then show ?thesis by (subst re_sub_empty.simps) simp
next
  case (Some q)
  with assms have "length (snd q) < length s" by simp
  with Some show ?thesis by (subst re_sub_empty.simps) (simp add: case_prod_beta)
qed

lemma article_unfold:
  assumes "subj \<noteq> []" and "\<forall>c\<in>set subj. is_word c"
  shows "re_sub_empty (article_pattern subj) p s =
     (case article_occurrence subj (p, s) of
        None \<Rightarrow> (case s of [] \<Rightarrow> [] | c # cs \<Rightarrow> c # re_sub_empty (article_pattern subj) (Some c) cs)
      | Some (p', s') \<Rightarrow> re_sub_empty (article_pattern subj) p' s')"
  using re_sub_empty_unfold [of "article_pattern subj" p s]
    article_occurrence_shorter [OF assms(1), of "(p, s)"]
  by (simp add: first_match_article [OF assms])

lemma bare_unfold:
  assumes "subj \<noteq> []" and "\<forall>c\<in>set subj. is_word c"
  shows "re_sub_empty (bare_pattern subj) p s =
     (case bare_occurrence subj (p, s) of
        None \<Rightarrow> (case s of [] \<Rightarrow> [] | c # cs \<Rightarrow> c # re_sub_empty (bare_pattern subj) (Some c) cs)
      | Some (p', s') \<Rightarrow> re_sub_empty (bare_pattern subj) p' s')"
  using re_sub_empty_unfold [of "bare_pattern subj" p s]
    bare_occurrence_shorter [OF assms(1), of "(p, s)"]
  by (simp add: first_match_bare [OF assms])

lemma remove_occurrences_unfold:
  assumes "subj \<noteq> []"
  shows "remove_occurrences subj p s =
     (case occurrence subj (p, s) of
        None \<Rightarrow> (case s of [] \<Rightarrow> [] | c # cs \<Rightarrow> c # remove_occurrences subj (Some c) cs)
      | Some (p', s') \<Rightarrow> remove_occurrences subj p' s')"
proof (cases s)
  case Nil
  have "occurrence subj (p, []) = None"
  proof (cases "occurrence subj (p, [])")
    case (Some q)
    from occurrence_shorter [OF assms this] show ?thesis by simp
  qed simp
  with Nil show ?thesis by (simp add: remove_occurrences.simps)
next
  case (Cons c cs)
  show ?thesis
  proof (cases "occurrence subj (p, s)")
    case None
    with Cons show ?thesis by (simp add: remove_occurrences.simps)
  next
    case (Some q)
    from occurrence_shorter [OF assms this] Some Cons show ?thesis
      by (simp add: remove_occurrences.simps case_prod_beta)
  qed
qed


lemma space_not_word: "is_space c \<Longrightarrow> \<not> is_word c"
  using word_not_space by blast

lemma startswith_starts_word:
  "a \<noteq> [] \<Longrightarrow> is_word (hd a) \<Longrightarrow> startswith s a \<Longrightarrow> starts_word s"
  by (cases a; cases s) (auto simp: startswith_Cons)

lemma article_then_subject_starts:
  assumes "article_then_subject subj a s = Some q" and "a \<noteq> []" and "is_word (hd a)"
  shows "starts_word s"
  using assms startswith_starts_word [of a s]
  by (auto simp: article_then_subject_def split: if_splits)

lemma article_occurrence_SomeD:
  assumes "article_occurrence subj (p, s) = Some q"
  shows "\<not> word_opt p" and "starts_word s" and "\<exists>r. subject_here subj r = Some q"
proof -
  from assms show "\<not> word_opt p"
    by (auto simp: article_occurrence_def split: if_splits)
  from assms obtain a where a: "a \<in> {''a'', ''an'', ''the''}"
    and ats: "article_then_subject subj a s = Some q"
    by (auto simp: article_occurrence_def split: if_splits option.splits)
  from a have "a \<noteq> []" "is_word (hd a)" using is_word_letters by auto
  with ats show "starts_word s" by (rule article_then_subject_starts)
  from ats show "\<exists>r. subject_here subj r = Some q"
    by (auto simp: article_then_subject_def split: if_splits)
qed

lemma article_None_nonword: "\<not> starts_word s \<Longrightarrow> article_occurrence subj (p, s) = None"
  using article_occurrence_SomeD(2) [of subj p s] by (cases "article_occurrence subj (p, s)") auto

lemma article_None_word_before: "word_opt p \<Longrightarrow> article_occurrence subj (p, s) = None"
  by (simp add: article_occurrence_def)

lemma subject_here_iff:
  "subject_here subj r = Some q \<longleftrightarrow>
     startswith r subj \<and> \<not> starts_word (drop (length subj) r)
     \<and> q = optional_comma (Some (last subj), drop (length subj) r)"
  by (auto simp: subject_here_def)

lemma subject_here_after:
  assumes "subject_here subj r = Some (p', s')"
  shows "\<not> word_opt p' \<or> \<not> starts_word s'"
proof -
  from assms have nw: "\<not> starts_word (drop (length subj) r)"
    and q: "(p', s') = optional_comma (Some (last subj), drop (length subj) r)"
    by (simp_all add: subject_here_iff)
  show ?thesis
  proof (cases "drop (length subj) r")
    case Nil
    with q show ?thesis by (simp add: optional_comma_def)
  next
    case (Cons d ds)
    with q nw show ?thesis
      by (cases "d = CHR '',''") (auto simp: optional_comma_def is_word_def)
  qed
qed

lemma bare_None_nonword:
  assumes "subj \<noteq> []" and "is_word (hd subj)" and "\<not> starts_word s"
  shows "bare_occurrence subj (p, s) = None"
  using assms startswith_starts_word [of subj s]
  by (auto simp: bare_occurrence_def subject_here_def)

lemma article_copy:
  assumes "subj \<noteq> []" and "\<forall>c\<in>set subj. is_word c"
    and "article_occurrence subj (p, c # cs) = None"
  shows "re_sub_empty (article_pattern subj) p (c # cs)
     = c # re_sub_empty (article_pattern subj) (Some c) cs"
  by (subst article_unfold [OF assms(1,2)]) (simp add: assms(3))

lemma article_Nil:
  assumes "subj \<noteq> []" and "\<forall>c\<in>set subj. is_word c"
  shows "re_sub_empty (article_pattern subj) p [] = []"
  by (subst article_unfold [OF assms]) (simp add: article_None_nonword)

lemma bare_copy:
  assumes "subj \<noteq> []" and "\<forall>c\<in>set subj. is_word c"
    and "bare_occurrence subj (p, c # cs) = None"
  shows "re_sub_empty (bare_pattern subj) p (c # cs)
     = c # re_sub_empty (bare_pattern subj) (Some c) cs"
  by (subst bare_unfold [OF assms(1,2)]) (simp add: assms(3))

lemma bare_Nil:
  assumes "subj \<noteq> []" and "\<forall>c\<in>set subj. is_word c"
  shows "re_sub_empty (bare_pattern subj) p [] = []"
  using assms by (subst bare_unfold [OF assms]) (simp add: bare_None_nonword)

lemma article_word_run:
  assumes "subj \<noteq> []" and "\<forall>c\<in>set subj. is_word c"
  shows "word_opt p \<Longrightarrow> \<forall>c\<in>set w. is_word c \<Longrightarrow>
     re_sub_empty (article_pattern subj) p (w @ r)
       = w @ re_sub_empty (article_pattern subj) (if w = [] then p else Some (last w)) r"
proof (induction w arbitrary: p)
  case Nil
  then show ?case by simp
next
  case (Cons c w)
  have "re_sub_empty (article_pattern subj) p (c # w @ r)
      = c # re_sub_empty (article_pattern subj) (Some c) (w @ r)"
    using Cons.prems(1) by (intro article_copy [OF assms]) (rule article_None_word_before)
  moreover have "re_sub_empty (article_pattern subj) (Some c) (w @ r)
      = w @ re_sub_empty (article_pattern subj) (if w = [] then Some c else Some (last w)) r"
    using Cons.prems(2) by (intro Cons.IH) simp_all
  ultimately show ?case by simp
qed

lemma article_first_word:
  assumes "subj \<noteq> []" and "\<forall>c\<in>set subj. is_word c"
    and "article_occurrence subj (p, w @ r) = None" and "w \<noteq> []" and "\<forall>c\<in>set w. is_word c"
  shows "re_sub_empty (article_pattern subj) p (w @ r)
     = w @ re_sub_empty (article_pattern subj) (Some (last w)) r"
proof -
  obtain c w' where w: "w = c # w'" using assms(4) by (cases w) auto
  have "re_sub_empty (article_pattern subj) p (c # w' @ r)
      = c # re_sub_empty (article_pattern subj) (Some c) (w' @ r)"
    using assms(3) by (intro article_copy [OF assms(1,2)]) (simp add: w)
  moreover have "re_sub_empty (article_pattern subj) (Some c) (w' @ r)
      = w' @ re_sub_empty (article_pattern subj) (if w' = [] then Some c else Some (last w')) r"
    using assms(5) by (intro article_word_run [OF assms(1,2)]) (simp_all add: w)
  ultimately show ?thesis by (simp add: w)
qed

lemma article_output_head:
  assumes "subj \<noteq> []" and "\<forall>c\<in>set subj. is_word c" and "\<not> starts_word r"
  shows "re_sub_empty (article_pattern subj) p r
     = (case r of [] \<Rightarrow> [] | d # ds \<Rightarrow> d # re_sub_empty (article_pattern subj) (Some d) ds)"
proof (cases r)
  case Nil
  then show ?thesis by (simp add: article_Nil [OF assms(1,2)])
next
  case (Cons d ds)
  with assms(3) have "article_occurrence subj (p, d # ds) = None"
    by (intro article_None_nonword) simp
  from article_copy [OF assms(1,2) this] Cons show ?thesis by simp
qed

lemma word_run_unique:
  assumes "\<forall>c\<in>set subj. is_word c" and "startswith s subj"
    and "\<not> starts_word (drop (length subj) s)"
  shows "takeWhile is_word s = subj" and "dropWhile is_word s = drop (length subj) s"
proof -
  let ?r = "drop (length subj) s"
  have s: "s = subj @ ?r" using assms(2) by (rule startswith_append)
  have tw: "takeWhile is_word ?r = []" and dw: "dropWhile is_word ?r = ?r"
    using assms(3) by (cases ?r; simp)+
  have "takeWhile is_word (subj @ ?r) = subj @ takeWhile is_word ?r"
    using assms(1) by (simp add: takeWhile_append2)
  with s tw show "takeWhile is_word s = subj" by simp
  have "dropWhile is_word (subj @ ?r) = dropWhile is_word ?r"
    using assms(1) by (simp add: dropWhile_append2)
  with s dw show "dropWhile is_word s = ?r" by simp
qed


lemma starts_word_dropWhile: "\<not> starts_word (dropWhile is_word s)"
  by (induction s) simp_all

lemma two_pass:
  assumes sj: "subj \<noteq> []" "\<forall>c\<in>set subj. is_word c"
  shows "word_opt p1 = word_opt p2 \<or> \<not> starts_word s \<Longrightarrow>
     re_sub_empty (bare_pattern subj) p2 (re_sub_empty (article_pattern subj) p1 s)
       = remove_occurrences subj p1 s"
proof (induction "length s" arbitrary: p1 p2 s rule: less_induct)
  case less
  let ?A = "re_sub_empty (article_pattern subj)"
  let ?B = "re_sub_empty (bare_pattern subj)"
  let ?R = "remove_occurrences subj"
  have hdw: "is_word (hd subj)" using sj by simp
  have IH: "?B q2 (?A q1 t) = ?R q1 t"
    if "length t < length s" and "word_opt q1 = word_opt q2 \<or> \<not> starts_word t" for q1 q2 t
    using less.hyps [OF that] .
  have copy: "?B p2 (?A p1 s) = ?R p1 s"
    if s: "s = c # cs" and a: "article_occurrence subj (p1, s) = None"
      and b1: "bare_occurrence subj (p1, s) = None"
      and b2: "bare_occurrence subj (p2, c # ?A (Some c) cs) = None" for c cs
  proof -
    have "?A p1 s = c # ?A (Some c) cs"
      using a unfolding s by (rule article_copy [OF sj])
    moreover have "?B p2 (c # ?A (Some c) cs) = c # ?B (Some c) (?A (Some c) cs)"
      using b2 by (rule bare_copy [OF sj])
    moreover have "?R p1 s = c # ?R (Some c) cs"
      using remove_occurrences_unfold [OF sj(1), of p1 s] a b1
      by (simp add: occurrence_def s)
    moreover have "?B (Some c) (?A (Some c) cs) = ?R (Some c) cs"
      by (rule IH) (simp_all add: s)
    ultimately show ?thesis by simp
  qed
  show ?case
  proof (cases s)
    case Nil
    then show ?thesis
      by (simp add: article_Nil [OF sj] bare_Nil [OF sj] remove_occurrences.simps)
  next
    case (Cons c cs)
    show ?thesis
    proof (cases "is_word c")
      case False
      show ?thesis
      proof (rule copy [OF Cons])
        show "article_occurrence subj (p1, s) = None"
          using False Cons by (intro article_None_nonword) simp
        show "bare_occurrence subj (p1, s) = None"
          using False Cons by (intro bare_None_nonword [OF sj(1) hdw]) simp
        show "bare_occurrence subj (p2, c # ?A (Some c) cs) = None"
          using False by (intro bare_None_nonword [OF sj(1) hdw]) simp
      qed
    next
      case True
      then have ctx: "word_opt p1 = word_opt p2"
        using less.prems Cons by simp
      show ?thesis
      proof (cases "article_occurrence subj (p1, s)")
        case (Some q)
        obtain p' s' where q: "q = (p', s')" by (cases q)
        have A: "?A p1 s = ?A p' s'"
          using Some by (subst article_unfold [OF sj]) (simp add: q)
        have R: "?R p1 s = ?R p' s'"
          using remove_occurrences_unfold [OF sj(1), of p1 s] Some
          by (simp add: occurrence_def q)
        have len: "length s' < length s"
          using article_occurrence_shorter [OF sj(1) Some] by (simp add: q)
        from article_occurrence_SomeD [OF Some] obtain r0 where
          nw: "\<not> word_opt p1" and sh: "subject_here subj r0 = Some (p', s')"
          by (auto simp: q)
        from subject_here_after [OF sh] nw ctx
        have "word_opt p' = word_opt p2 \<or> \<not> starts_word s'" by auto
        from IH [OF len this] A R show ?thesis by simp
      next
        case None
        define w where "w = takeWhile is_word s"
        define r where "r = dropWhile is_word s"
        have s: "s = w @ r" by (simp add: w_def r_def)
        have w: "w \<noteq> []" "\<forall>c\<in>set w. is_word c"
          using True Cons by (auto simp: w_def dest: set_takeWhileD)
        have r: "\<not> starts_word r"
          unfolding r_def by (rule starts_word_dropWhile)
        define X where "X = ?A (Some (last w)) r"
        have Aw: "?A p1 s = w @ X"
          unfolding X_def s using None w by (intro article_first_word [OF sj]) (simp_all add: s)
        have Xh: "X = (case r of [] \<Rightarrow> [] | d # ds \<Rightarrow> d # ?A (Some d) ds)"
          unfolding X_def by (rule article_output_head [OF sj r])
        have nX: "\<not> starts_word X"
          using r by (cases r) (simp_all add: Xh)
        have twX: "takeWhile is_word (w @ X) = w"
          using w(2) nX by (cases X) (simp_all add: takeWhile_append2)
        show ?thesis
        proof (cases "bare_occurrence subj (p1, s)")
          case bn: None
          have b2: "bare_occurrence subj (p2, w @ X) = None"
          proof (rule ccontr)
            assume "bare_occurrence subj (p2, w @ X) \<noteq> None"
            then obtain q where "bare_occurrence subj (p2, w @ X) = Some q" by blast
            then have np2: "\<not> word_opt p2" and sw: "startswith (w @ X) subj"
              and nd: "\<not> starts_word (drop (length subj) (w @ X))"
              by (auto simp: bare_occurrence_def subject_here_iff split: if_splits)
            from word_run_unique(1) [OF sj(2) sw nd] twX have eq: "subj = w" by simp
            have "startswith s subj" by (simp add: eq s startswith_def)
            moreover have "\<not> starts_word (drop (length subj) s)" using r by (simp add: eq s)
            ultimately have "bare_occurrence subj (p1, s) \<noteq> None"
              using np2 ctx by (simp add: bare_occurrence_def subject_here_def)
            with bn show False by simp
          qed
          have "?A p1 s = c # ?A (Some c) cs"
            using None unfolding Cons by (rule article_copy [OF sj])
          with Aw have "w @ X = c # ?A (Some c) cs" by simp
          with b2 have "bare_occurrence subj (p2, c # ?A (Some c) cs) = None" by simp
          with Cons None bn show ?thesis by (intro copy)
        next
          case (Some q)
          then have np1: "\<not> word_opt p1" and sw: "startswith s subj"
            and nd: "\<not> starts_word (drop (length subj) s)"
            and q: "q = optional_comma (Some (last subj), drop (length subj) s)"
            by (auto simp: bare_occurrence_def subject_here_iff split: if_splits)
          from word_run_unique [OF sj(2) sw nd] have eq: "w = subj" and req: "r = drop (length subj) s"
            by (simp_all add: w_def r_def)
          have R: "?R p1 s = ?R (fst q) (snd q)"
            using remove_occurrences_unfold [OF sj(1), of p1 s] None Some
            by (simp add: occurrence_def case_prod_beta)
          let ?q2 = "optional_comma (Some (last subj), X)"
          have "bare_occurrence subj (p2, w @ X) = Some ?q2"
            using np1 ctx nX by (simp add: bare_occurrence_def subject_here_def eq startswith_def)
          then have B: "?B p2 (w @ X) = ?B (fst ?q2) (snd ?q2)"
            by (subst bare_unfold [OF sj]) (simp add: case_prod_beta)
          have lr: "length r < length s" using w(1) by (simp add: s)
          have "?B (fst ?q2) (snd ?q2) = ?R (fst q) (snd q)"
          proof (cases "\<exists>ds. r = CHR '','' # ds")
            case True
            then obtain ds where ds: "r = CHR '','' # ds" by blast
            have "?q2 = (Some CHR '','', ?A (Some CHR '','') ds)"
              by (simp add: Xh ds optional_comma_def)
            moreover have "q = (Some CHR '','', ds)"
              using ds by (simp add: q req [symmetric] optional_comma_def)
            moreover have "?B (Some CHR '','') (?A (Some CHR '','') ds) = ?R (Some CHR '','') ds"
              using lr by (intro IH) (simp_all add: ds)
            ultimately show ?thesis by simp
          next
            case False
            then have "?q2 = (Some (last subj), X)"
              by (cases r) (auto simp: Xh optional_comma_def)
            moreover have "q = (Some (last subj), r)"
              using False by (cases r) (auto simp: q req [symmetric] optional_comma_def)
            moreover have "?B (Some (last subj)) (?A (Some (last subj)) r) = ?R (Some (last subj)) r"
              using lr by (intro IH) simp_all
            ultimately show ?thesis by (simp add: X_def eq)
          qed
          with Aw B R show ?thesis by simp
        qed
      qed
    qed
  qed
qed


lemma places_head: "(p, s) \<in> set (places p s)"
  by (cases s) simp_all

lemma places_mem: "pre \<noteq> [] \<Longrightarrow> (Some (last pre), r) \<in> set (places p (pre @ r))"
proof (induction pre arbitrary: p)
  case Nil
  then show ?case by simp
next
  case (Cons c pre)
  then show ?case by (cases pre) (simp_all add: places_head)
qed

lemma article_has_bare:
  assumes "article_occurrence subj (p, s) = Some q"
  shows "\<exists>q'\<in>set (places p s). bare_occurrence subj q' \<noteq> None"
proof -
  from assms obtain a where ats: "article_then_subject subj a s = Some q"
    by (auto simp: article_occurrence_def split: if_splits option.splits)
  let ?ws = "takeWhile is_space (drop (length a) s)"
  let ?r = "dropWhile is_space (drop (length a) s)"
  from ats have sw: "startswith s a" and ws: "?ws \<noteq> []" and sh: "subject_here subj ?r = Some q"
    by (auto simp: article_then_subject_def split: if_splits)
  have "s = a @ drop (length a) s" using sw by (rule startswith_append)
  also have "drop (length a) s = ?ws @ ?r" by simp
  finally have s: "s = (a @ ?ws) @ ?r" by simp
  have "(Some (last (a @ ?ws)), ?r) \<in> set (places p ((a @ ?ws) @ ?r))"
    using ws by (intro places_mem) simp
  then have mem: "(Some (last ?ws), ?r) \<in> set (places p s)"
    using ws s by simp
  have "last ?ws \<in> set ?ws" using ws by simp
  then have "is_space (last ?ws)" by (auto dest: set_takeWhileD)
  then have "\<not> is_word (last ?ws)" by (rule space_not_word)
  then have "bare_occurrence subj (Some (last ?ws), ?r) \<noteq> None"
    using sh by (simp add: bare_occurrence_def)
  with mem show ?thesis by blast
qed

lemma no_occurrence_unchanged:
  assumes "subj \<noteq> []"
  shows "\<forall>q\<in>set (places p s). bare_occurrence subj q = None \<Longrightarrow> remove_occurrences subj p s = s"
proof (induction s arbitrary: p)
  case Nil
  then show ?case by (simp add: remove_occurrences.simps)
next
  case (Cons c cs)
  have b: "bare_occurrence subj (p, c # cs) = None"
    using Cons.prems by simp
  have a: "article_occurrence subj (p, c # cs) = None"
    using article_has_bare [of subj p "c # cs"] Cons.prems
    by (cases "article_occurrence subj (p, c # cs)") auto
  have "remove_occurrences subj (Some c) cs = cs"
    using Cons.prems by (intro Cons.IH) simp
  with a b show ?case
    by (simp add: remove_occurrences.simps occurrence_def)
qed

text \<open>
  Claim C6. For a placeholder that is a word (a non-empty string of word characters),
  the two substitutions of \<^verbatim>\<open>update_prompt\<close> remove from every prompt exactly the
  occurrences the specification names: their result is the result of the one pass that
  skips, at a word boundary, \<^verbatim>\<open>a\<close>, \<^verbatim>\<open>an\<close> or \<^verbatim>\<open>the\<close> with white space and the
  placeholder word, or the bare placeholder word, each ending at a word boundary and
  with its comma if one follows, and copies every other character. A prompt in which the
  placeholder stands nowhere as a word of its own (it may be part of longer words, as
  \<^verbatim>\<open>z\<close> in \<^verbatim>\<open>jazz\<close>) is returned unchanged.
\<close>

theorem remove_subject_removes_occurrences:
  assumes "subj \<noteq> []" and "\<forall>c\<in>set subj. is_word c"
  shows "remove_subject subj prompt = remove_occurrences subj None prompt
     \<and> ((\<forall>q\<in>set (places None prompt). bare_occurrence subj q = None) \<longrightarrow>
          remove_subject subj prompt = prompt)"
proof -
  have eq: "remove_subject subj prompt = remove_occurrences subj None prompt"
    unfolding remove_subject_def by (rule two_pass [OF assms]) simp
  moreover have "remove_occurrences subj None prompt = prompt"
    if "\<forall>q\<in>set (places None prompt). bare_occurrence subj q = None"
    using that by (rule no_occurrence_unchanged [OF assms(1)])
  ultimately show ?thesis by simp
qed

theorem remove_subject_removes_occurrences_witness:
  "is_word CHR ''z''
   \<and> remove_subject ''z'' ''a z, the  z in jazz, an z! z-ray z'' = ''  in jazz, ! -ray ''
   \<and> remove_occurrences ''z'' None ''a z, the  z in jazz, an z! z-ray z'' = ''  in jazz, ! -ray ''
   \<and> remove_subject ''z'' ''jazz pizza, zebra'' = ''jazz pizza, zebra''"
proof -
  have ne: "''z'' \<noteq> []" by simp
  have wd: "\<forall>c\<in>set ''z''. is_word c" by (simp add: is_word_def)
  have v: "remove_occurrences ''z'' None ''a z, the  z in jazz, an z! z-ray z'' = ''  in jazz, ! -ray ''"
    by code_simp
  have n: "\<forall>q\<in>set (places None ''jazz pizza, zebra''). bare_occurrence ''z'' q = None"
    by code_simp
  from remove_subject_removes_occurrences [OF ne wd, of "''a z, the  z in jazz, an z! z-ray z''"] v
  have a: "remove_subject ''z'' ''a z, the  z in jazz, an z! z-ray z'' = ''  in jazz, ! -ray ''"
    by simp
  from remove_subject_removes_occurrences [OF ne wd, of "''jazz pizza, zebra''"] n
  have b: "remove_subject ''z'' ''jazz pizza, zebra'' = ''jazz pizza, zebra''"
    by blast
  from wd a v b show ?thesis by simp
qed

lemma encoders_loop_16_4:
  "snd (snd (encoders_loop ''z'' [16, 4] [0..<2] [] [] None))
     = [''z_0_0 z_0_1 z_0_2 z_0_3 z_0_4 z_0_5 z_0_6 z_0_7 z_0_8 z_0_9 z_0_10 z_0_11 z_0_12 z_0_13 z_0_14 z_0_15'',
        ''z_1_0 z_1_1 z_1_2 z_1_3'']"
  by code_simp

lemma joined_tokens_16_4:
  "join '' '' (map (placeholder_token ''z'' 0) [0..<16])
     = ''z_0_0 z_0_1 z_0_2 z_0_3 z_0_4 z_0_5 z_0_6 z_0_7 z_0_8 z_0_9 z_0_10 z_0_11 z_0_12 z_0_13 z_0_14 z_0_15''"
  "join '' '' (map (placeholder_token ''z'' 1) [0..<4]) = ''z_1_0 z_1_1 z_1_2 z_1_3''"
  by code_simp+

lemma remove_subject_jungle: "remove_subject ''z'' ''a z in the jungle'' = '' in the jungle''"
  by code_simp

text \<open>
  Claim C2. With the encoders arc2face (16 id vectors) and consistentID (4 id vectors)
  in this order and the subject string \<^verbatim>\<open>z\<close>, the prompt composed from
  \<^verbatim>\<open>a z in the jungle\<close> is the 16 tokens \<^verbatim>\<open>z_0_0\<close> .. \<^verbatim>\<open>z_0_15\<close> in order at the
  front, the 4 tokens \<^verbatim>\<open>z_1_0\<close> .. \<^verbatim>\<open>z_1_3\<close> in order at the end, and between them
  the text \<^verbatim>\<open>in the jungle\<close> with two blanks before it and one after it.
\<close>

theorem update_prompt_two_encoders:
  assumes "extend_tokenizer_and_text_encoder init self = (None, self')"
    and "adaface_encoder_types self = [''arc2face'', ''consistentID'']"
    and "encoders_num_id_vecs self = [16, 4]"
    and "subject_string self = ''z''"
  shows "update_prompt self' (Some ''a z in the jungle'')
       = Inr (join '' '' (map (placeholder_token ''z'' 0) [0..<16]) @ ''  in the jungle ''
              @ join '' '' (map (placeholder_token ''z'' 1) [0..<4]))
     \<and> update_prompt self' (Some ''a z in the jungle'')
       = Inr ''z_0_0 z_0_1 z_0_2 z_0_3 z_0_4 z_0_5 z_0_6 z_0_7 z_0_8 z_0_9 z_0_10 z_0_11 z_0_12 z_0_13 z_0_14 z_0_15  in the jungle z_1_0 z_1_1 z_1_2 z_1_3''"
proof -
  note facts = extend_ok [OF assms(1)]
  have strs: "placeholder_tokens_strs self'
      = [''z_0_0 z_0_1 z_0_2 z_0_3 z_0_4 z_0_5 z_0_6 z_0_7 z_0_8 z_0_9 z_0_10 z_0_11 z_0_12 z_0_13 z_0_14 z_0_15'',
         ''z_1_0 z_1_1 z_1_2 z_1_3'']"
    using facts(10) encoders_loop_16_4 by (simp add: assms(2,3,4) numeral_2_eq_2)
  have types: "adaface_encoder_types self' = [''arc2face'', ''consistentID'']"
    using facts(13) assms(2) by simp
  have subj: "subject_string self' = ''z''"
    using facts(12) assms(4) by simp
  have "update_prompt self' (Some ''a z in the jungle'')
       = Inr ''z_0_0 z_0_1 z_0_2 z_0_3 z_0_4 z_0_5 z_0_6 z_0_7 z_0_8 z_0_9 z_0_10 z_0_11 z_0_12 z_0_13 z_0_14 z_0_15  in the jungle z_1_0 z_1_1 z_1_2 z_1_3''"
    by (simp add: update_prompt_def strs types subj remove_subject_jungle)
  then show ?thesis
    unfolding joined_tokens_16_4 by simp
qed

theorem update_prompt_two_encoders_witness:
  "fst (extend_tokenizer_and_text_encoder (\<lambda>k. 0) (example_wrapper\<lparr>encoders_num_id_vecs := [16, 4]\<rparr>))
     = None
   \<and> update_prompt
        (snd (extend_tokenizer_and_text_encoder (\<lambda>k. 0) (example_wrapper\<lparr>encoders_num_id_vecs := [16, 4]\<rparr>)))
        (Some ''a z in the jungle'')
     = Inr ''z_0_0 z_0_1 z_0_2 z_0_3 z_0_4 z_0_5 z_0_6 z_0_7 z_0_8 z_0_9 z_0_10 z_0_11 z_0_12 z_0_13 z_0_14 z_0_15  in the jungle z_1_0 z_1_1 z_1_2 z_1_3''"
proof -
  let ?W = "example_wrapper\<lparr>encoders_num_id_vecs := [16, 4]\<rparr>"
  have ok: "fst (extend_tokenizer_and_text_encoder (\<lambda>k. 0) ?W) = None"
    by code_simp
  then have ext: "extend_tokenizer_and_text_encoder (\<lambda>k. 0) ?W
      = (None, snd (extend_tokenizer_and_text_encoder (\<lambda>k. 0) ?W))"
    by (metis prod.collapse)
  have t: "adaface_encoder_types ?W = [''arc2face'', ''consistentID'']"
    and n: "encoders_num_id_vecs ?W = [16, 4]" and s: "subject_string ?W = ''z''"
    by (simp_all add: example_wrapper_def)
  from update_prompt_two_encoders [OF ext t n s] ok show ?thesis by blast
qed

end
